theory Spec2Isabelle
  imports Complex_Main
begin

section \<open>Dantzig's simplex method: the tableau and the solver\<close>

text \<open>
  A shallow embedding of \<^verbatim>\<open>simplex/tableau.py\<close>, \<^verbatim>\<open>simplex/solver.py\<close> and
  \<^verbatim>\<open>simplex/exceptions.py\<close>.

  The tableau is a numpy array of floats. Its entries are modelled as exact rationals:
  rounding, overflow to infinity and NaN entries inside the matrix are outside the model.
  The two places where the source itself writes a non-finite float (the \<^verbatim>\<open>np.inf\<close>
  sentinel of the ratio test and the \<^verbatim>\<open>np.inf\<close>/\<^verbatim>\<open>np.NaN\<close> objective values of a
  \<^verbatim>\<open>Solution\<close>) have constructors of their own.

  A numpy matrix is a list of rows. Every numpy matrix is rectangular; \<open>rect\<close> below
  states it, and the theorems that need it assume it.
\<close>

subsection \<open>Exceptions and states\<close>

text \<open>
  \<^verbatim>\<open>ReachedOptimality\<close>, \<^verbatim>\<open>UnboundedProblem\<close> and \<^verbatim>\<open>InfeasibleProblem\<close> are the
  tableau's termination signals; \<^verbatim>\<open>UnsolvableError\<close> carries the iteration budget.
  The others are the Python errors a line of the source can raise.
\<close>

datatype exc =
    ReachedOptimality
  | UnboundedProblem
  | InfeasibleProblem
  | UnsolvableError int
  | SizeMismatchError
  | LinearlyDependentError
  | NameError
  | IndexError
  | ValueError
  | KeyError
  | AttributeError

datatype state = Optimal | Unbounded | Infeasible

subsection \<open>numpy and Python primitives\<close>

text \<open>\<^verbatim>\<open>xs.index(v)\<close>: the first position of \<open>v\<close> (the length when \<open>v\<close> is absent, where
  Python raises).\<close>

fun index_of :: "'a list \<Rightarrow> 'a \<Rightarrow> nat" where
  "index_of [] v = 0"
| "index_of (x # xs) v = (if x = v then 0 else Suc (index_of xs v))"

text \<open>\<^verbatim>\<open>np.argwhere(xs < 0)\<close>: the positions that satisfy the test, ascending.\<close>

definition argwhere :: "('a \<Rightarrow> bool) \<Rightarrow> 'a list \<Rightarrow> nat list" where
  "argwhere p xs = filter (\<lambda>i. p (xs ! i)) [0..<length xs]"

text \<open>\<^verbatim>\<open>xs.min()\<close> on a non-empty array.\<close>

fun min_list1 :: "'a::linorder \<Rightarrow> 'a list \<Rightarrow> 'a" where
  "min_list1 x [] = x"
| "min_list1 x (y # ys) = min_list1 (min x y) ys"

text \<open>Python's \<^verbatim>\<open>max(xs)\<close> on a non-empty list.\<close>

fun max_list1 :: "'a::linorder \<Rightarrow> 'a list \<Rightarrow> 'a" where
  "max_list1 x [] = x"
| "max_list1 x (y # ys) = max_list1 (max x y) ys"

text \<open>\<^verbatim>\<open>xs.argmin()\<close>: the first position of the minimum; numpy raises ValueError on an
  empty array.\<close>

definition argmin :: "'a::linorder list \<Rightarrow> exc + nat" where
  "argmin xs = (case xs of [] \<Rightarrow> Inl ValueError | x # ys \<Rightarrow> Inr (index_of xs (min_list1 x ys)))"

text \<open>\<^verbatim>\<open>np.dot\<close> of two vectors.\<close>

definition dot :: "rat list \<Rightarrow> rat list \<Rightarrow> rat" where
  "dot xs ys = sum_list (map2 (*) xs ys)"

text \<open>\<^verbatim>\<open>M.T\<close>: the columns of a matrix, as many as row 0 has entries.\<close>

definition columns :: "rat list list \<Rightarrow> rat list list" where
  "columns M = map (\<lambda>j. map (\<lambda>r. r ! j) M) [0..<length (hd M)]"

text \<open>A matrix of \<open>nr\<close> rows and \<open>nc\<close> columns.\<close>

definition rect :: "rat list list \<Rightarrow> nat \<Rightarrow> nat \<Rightarrow> bool" where
  "rect M nr nc \<longleftrightarrow> length M = nr \<and> (\<forall>r \<in> set M. length r = nc)"

text \<open>\<^verbatim>\<open>np.identity(m + 1)[1:]\<close>: row \<open>i\<close> is the unit vector of length \<open>m + 1\<close> with its 1
  at position \<open>i + 1\<close>, so that the entry of tableau row 0 is 0.\<close>

definition unit_vec :: "nat \<Rightarrow> nat \<Rightarrow> rat list" where
  "unit_vec len k = map (\<lambda>i. if i = k then 1 else 0) [0..<len]"

definition identity_shifted :: "nat \<Rightarrow> rat list list" where
  "identity_shifted m = map (\<lambda>i. unit_vec (Suc m) (Suc i)) [0..<m]"

text \<open>Python's \<^verbatim>\<open>xs[i]\<close> and \<^verbatim>\<open>xs[i] = v\<close> on a list: a negative index counts from the
  end, an index out of range raises IndexError.\<close>

definition py_getitem :: "'a list \<Rightarrow> int \<Rightarrow> exc + 'a" where
  "py_getitem xs i =
     (let n = int (length xs); j = (if i < 0 then n + i else i)
      in if 0 \<le> j \<and> j < n then Inr (xs ! nat j) else Inl IndexError)"

definition py_setitem :: "'a list \<Rightarrow> int \<Rightarrow> 'a \<Rightarrow> exc + 'a list" where
  "py_setitem xs i v =
     (let n = int (length xs); j = (if i < 0 then n + i else i)
      in if 0 \<le> j \<and> j < n then Inr (xs[nat j := v]) else Inl IndexError)"

text \<open>A list comprehension whose body can raise: the first error wins.\<close>

fun collect :: "('a \<Rightarrow> exc + 'b) \<Rightarrow> 'a list \<Rightarrow> exc + 'b list" where
  "collect f [] = Inr []"
| "collect f (x # xs) =
     (case f x of Inl e \<Rightarrow> Inl e
      | Inr y \<Rightarrow> (case collect f xs of Inl e \<Rightarrow> Inl e | Inr ys \<Rightarrow> Inr (y # ys)))"

subsection \<open>The tableau\<close>

text \<open>The attributes of \<^verbatim>\<open>Tableau\<close>. \<open>pivot_idx\<close> and \<open>artificial_vars\<close> do not exist
  until \<^verbatim>\<open>pivot\<close> and \<^verbatim>\<open>add_artificial_variables\<close> set them. \<open>artificial_vars\<close> is
  the \<^verbatim>\<open>range\<close> written out.\<close>

record Tableau =
  obj_func :: "rat list"
  tab :: "rat list list"
  shape :: "nat \<times> nat"
  state :: "state option"
  pivot_idx :: "(nat \<times> nat) option"
  artificial_vars :: "nat list option"

text \<open>\<^verbatim>\<open>Tableau.__init__\<close>: row 0 is the negated objective and the objective value 0,
  rows 1..m are the coefficients with the right-hand side. (Where numpy refuses to
  stack the rows, with no constraint and not exactly one variable, is written out in
  \<open>SimplexSolver_init\<close> below.)\<close>

definition Tableau_init :: "rat list \<Rightarrow> rat list list \<Rightarrow> rat list \<Rightarrow> Tableau" where
  "Tableau_init obj coeffs constraints =
     \<lparr> obj_func = obj,
       tab = (map uminus obj @ [0]) # map2 (\<lambda>r b. r @ [b]) coeffs constraints,
       shape = (length constraints, length obj),
       state = None,
       pivot_idx = None,
       artificial_vars = None \<rparr>"

text \<open>\<^verbatim>\<open>SimplexSolver.__init__\<close>: the dimension checks, then the tableau. With no
  constraint at all \<^verbatim>\<open>np.c_[coeffs, constraints]\<close> is an array of no rows and two columns,
  and \<^verbatim>\<open>np.r_\<close> in \<^verbatim>\<open>Tableau.__init__\<close> raises ValueError unless row 0 has two entries as
  well, that is unless there is exactly one variable.\<close>

definition SimplexSolver_init :: "rat list \<Rightarrow> rat list list \<Rightarrow> rat list \<Rightarrow> exc + Tableau" where
  "SimplexSolver_init obj coeffs constraints =
     (let m = length constraints; n = length obj
      in if length coeffs \<noteq> m then Inl SizeMismatchError
         else if \<exists>coeff \<in> set coeffs. length coeff \<noteq> n then Inl SizeMismatchError
         else if m > n then Inl LinearlyDependentError
         else if m = 0 \<and> n \<noteq> 1 then Inl ValueError
         else Inr (Tableau_init obj coeffs constraints))"

text \<open>The properties \<^verbatim>\<open>obj_value\<close>, \<^verbatim>\<open>solution\<close> and \<^verbatim>\<open>basis\<close>.\<close>

definition obj_value :: "Tableau \<Rightarrow> rat" where
  "obj_value t = last (tab t ! 0)"

definition solution :: "Tableau \<Rightarrow> rat list" where
  "solution t = map last (tl (tab t))"

text \<open>\<^verbatim>\<open>basis\<close>: for each row of the shifted identity, every column of the tableau is
  compared with it, in order and without a break, so the last matching column stays.
  The loop runs over \<^verbatim>\<open>self.tab.T\<close>, all columns of the tableau.\<close>

definition basis_row :: "rat list list \<Rightarrow> rat list \<Rightarrow> int" where
  "basis_row cols row =
     fold (\<lambda>(j, col) b. if row = col then int j else b) (enumerate 0 cols) (- 1)"

definition basis :: "Tableau \<Rightarrow> int list" where
  "basis t = map (basis_row (columns (tab t))) (identity_shifted (fst (shape t)))"

subsection \<open>Pivoting\<close>

text \<open>The ratios of the minimum ratio test carry the \<^verbatim>\<open>np.inf\<close> sentinel.\<close>

datatype ratio = Fin rat | PInf

instantiation ratio :: linorder
begin

fun less_eq_ratio :: "ratio \<Rightarrow> ratio \<Rightarrow> bool" where
  "less_eq_ratio (Fin a) (Fin b) = (a \<le> b)"
| "less_eq_ratio (Fin a) PInf = True"
| "less_eq_ratio PInf (Fin b) = False"
| "less_eq_ratio PInf PInf = True"

definition less_ratio :: "ratio \<Rightarrow> ratio \<Rightarrow> bool" where
  "less_ratio x y = (x \<le> y \<and> \<not> y \<le> x)"

instance
proof
  fix x y z :: ratio
  show "(x < y) = (x \<le> y \<and> \<not> y \<le> x)" by (simp add: less_ratio_def)
  show "x \<le> x" by (cases x) auto
  show "x \<le> y \<Longrightarrow> y \<le> z \<Longrightarrow> x \<le> z" by (cases x; cases y; cases z) auto
  show "x \<le> y \<Longrightarrow> y \<le> x \<Longrightarrow> x = y" by (cases x; cases y) auto
  show "x \<le> y \<or> y \<le> x" by (cases x; cases y) auto
qed

end

text \<open>\<^verbatim>\<open>_pivot_around(r, c)\<close>: row \<open>r\<close> is divided by the pivot element, then from every
  other row the normalised pivot row times that row's entry in column \<open>c\<close> is
  subtracted (and zeros from row \<open>r\<close>). numpy raises IndexError out of range.\<close>

definition pivot_around :: "nat \<Rightarrow> nat \<Rightarrow> Tableau \<Rightarrow> (exc + unit) \<times> Tableau" where
  "pivot_around r c t =
     (if r < length (tab t) \<and> c < length (hd (tab t)) then
        let T1 = (tab t)[r := map (\<lambda>x. x / (tab t ! r ! c)) (tab t ! r)];
            T2 = map (\<lambda>(i, row).
                        map2 (-) row
                          (if i \<noteq> r then map (\<lambda>x. x * (T1 ! i ! c)) (T1 ! r)
                           else replicate (length (T1 ! r)) 0))
                     (enumerate 0 T1)
        in (Inr (), t\<lparr>tab := T2\<rparr>)
      else (Inl IndexError, t))"

text \<open>\<^verbatim>\<open>self.tab[0][:-1]\<close>: row 0 without the objective value.\<close>

definition cost_row :: "Tableau \<Rightarrow> rat list" where
  "cost_row t = butlast (tab t ! 0)"

text \<open>Lines 181 to 187 of \<^verbatim>\<open>pivot\<close>: the entering variable, or the termination signal
  when row 0 has no negative entry left of the right-hand side.\<close>

definition entering_var :: "bool \<Rightarrow> Tableau \<Rightarrow> exc + nat" where
  "entering_var use_blands_rule t =
     (case argwhere (\<lambda>v. v < 0) (cost_row t) of
        [] \<Rightarrow> (let feasible_sol = list_all (\<lambda>v. v \<ge> 0) (solution t)
               in if feasible_sol then Inl ReachedOptimality else Inl InfeasibleProblem)
      | w # ws \<Rightarrow> if \<not> use_blands_rule then argmin (cost_row t) else Inr (min_list1 w ws))"

text \<open>Line 191: the ratios, \<^verbatim>\<open>np.inf\<close> where the entering column is not positive.\<close>

definition ratios :: "Tableau \<Rightarrow> nat \<Rightarrow> ratio list" where
  "ratios t entering =
     map (\<lambda>r. if r ! entering > 0 then Fin (last r / (r ! entering)) else PInf) (tl (tab t))"

text \<open>Lines 192 to 196: the departing row (counted from 0 among the constraint rows).
  Under Bland's rule the basis entries of the rows whose ratio equals the minimum are
  collected, and the first row whose basis entry is their minimum is taken.\<close>

definition departing_var :: "bool \<Rightarrow> Tableau \<Rightarrow> nat \<Rightarrow> exc + nat" where
  "departing_var use_blands_rule t entering =
     (let rs = ratios t entering
      in case argmin rs of
           Inl e \<Rightarrow> Inl e
         | Inr d \<Rightarrow>
             if use_blands_rule then
               (let val = rs ! d;
                    tied = map fst (filter (\<lambda>(b, r). r = val) (zip (basis t) rs))
                in case tied of
                     [] \<Rightarrow> Inl ValueError
                   | b # bs \<Rightarrow> Inr (index_of (basis t) (min_list1 b bs)))
             else Inr d)"

text \<open>\<^verbatim>\<open>pivot\<close>. The termination signals are raised before \<open>pivot_idx\<close> is set and
  before \<^verbatim>\<open>_pivot_around\<close> runs; the tableau returned with a signal is the tableau at
  the point of the \<^verbatim>\<open>raise\<close>.\<close>

definition pivot :: "bool \<Rightarrow> Tableau \<Rightarrow> (exc + unit) \<times> Tableau" where
  "pivot use_blands_rule t =
     (case entering_var use_blands_rule t of
        Inl e \<Rightarrow> (Inl e, t)
      | Inr entering \<Rightarrow>
          (case departing_var use_blands_rule t entering of
             Inl e \<Rightarrow> (Inl e, t)
           | Inr departing \<Rightarrow>
               if tl (tab t) ! departing ! entering \<le> 0 then (Inl UnboundedProblem, t)
               else pivot_around (departing + 1) entering
                      (t\<lparr>pivot_idx := Some (departing + 1, entering)\<rparr>)))"

text \<open>\<^verbatim>\<open>add_artificial_variables\<close>: row 0 becomes, for every column, the negated sum of
  the entries in the rows without a basic variable; then one unit column per such row
  is inserted before the last column.\<close>

definition add_artificial_variables :: "Tableau \<Rightarrow> Tableau" where
  "add_artificial_variables t =
     (let b = basis t;
          new_basic_cost = map (\<lambda>v. if v = - 1 then - 1 else 0) b;
          T1 = (tab t)[0 := map (\<lambda>r. dot new_basic_cost (tl r)) (columns (tab t))];
          identity = identity_shifted (fst (shape t));
          args = filter (\<lambda>i. b ! i = - 1) [0..<length b];
          T2 = map (\<lambda>(i, row). butlast row @ map (\<lambda>a. identity ! a ! i) args @ [last row])
                 (enumerate 0 T1)
      in t\<lparr>tab := T2,
           artificial_vars := Some [snd (shape t) ..< snd (shape t) + length args]\<rparr>)"

text \<open>\<^verbatim>\<open>drop_artificial_variables\<close>. The check of line 271 reads \<^verbatim>\<open>self.tab[v][-1]\<close>, and
  no name \<^verbatim>\<open>v\<close> is bound in the method or the module (the loop variable is \<^verbatim>\<open>var\<close>):
  the line raises NameError as soon as a basic variable is artificial, and the
  \<^verbatim>\<open>raise InfeasibleProblem\<close> under it is never reached. Otherwise the artificial columns
  are deleted and row 0 is recomputed from the original objective.\<close>

definition drop_artificial_variables :: "Tableau \<Rightarrow> (exc + unit) \<times> Tableau" where
  "drop_artificial_variables t =
     (case artificial_vars t of
        None \<Rightarrow> (Inl AttributeError, t)
      | Some drop_cols \<Rightarrow>
          if \<exists>var \<in> set (basis t). var \<in> int ` set drop_cols then (Inl NameError, t)
          else
            (let T1 = map (\<lambda>row. map (\<lambda>j. row ! j)
                                   (filter (\<lambda>j. j \<notin> set drop_cols) [0..<length row]))
                          (tab t);
                 t1 = t\<lparr>tab := T1\<rparr>
             in case collect (py_getitem (obj_func t1)) (basis t1) of
                  Inl e \<Rightarrow> (Inl e, t1)
                | Inr costs \<Rightarrow>
                    (Inr (), t1\<lparr>tab := T1[0 := map2 (\<lambda>c r. dot costs (tl r) - c)
                                                  (obj_func t1 @ [0]) (columns T1)]\<rparr>)))"

subsection \<open>The solution\<close>

text \<open>The objective value of a \<^verbatim>\<open>Solution\<close>: a number, \<^verbatim>\<open>np.inf\<close> or \<^verbatim>\<open>np.NaN\<close>.\<close>

datatype objective = Value rat | Infinity | NaN

record Solution =
  sol_state :: state
  sol_obj_value :: objective
  sol_solution :: "rat list option"

text \<open>The loop \<^verbatim>\<open>for i, j in zip(basis, solution): self.solution[i] = j\<close>.\<close>

fun assign :: "(int \<times> rat) list \<Rightarrow> rat list \<Rightarrow> exc + rat list" where
  "assign [] xs = Inr xs"
| "assign ((i, j) # ps) xs =
     (case py_setitem xs i j of Inl e \<Rightarrow> Inl e | Inr ys \<Rightarrow> assign ps ys)"

text \<open>\<^verbatim>\<open>Solution.__init__\<close>. A state that is not a key of the dictionary raises KeyError,
  \<^verbatim>\<open>max\<close> of an empty basis ValueError.\<close>

definition Solution_init :: "state option \<Rightarrow> rat \<Rightarrow> int list \<Rightarrow> rat list \<Rightarrow> exc + Solution" where
  "Solution_init st obj_val bas sol =
     (case st of
        None \<Rightarrow> Inl KeyError
      | Some Unbounded \<Rightarrow>
          Inr \<lparr>sol_state = Unbounded, sol_obj_value = Infinity, sol_solution = None\<rparr>
      | Some Infeasible \<Rightarrow>
          Inr \<lparr>sol_state = Infeasible, sol_obj_value = NaN, sol_solution = None\<rparr>
      | Some Optimal \<Rightarrow>
          (case bas of
             [] \<Rightarrow> Inl ValueError
           | b # bs \<Rightarrow>
               (case assign (zip bas sol) (replicate (nat (max_list1 b bs + 1)) 0) of
                  Inl e \<Rightarrow> Inl e
                | Inr xs \<Rightarrow>
                    Inr \<lparr>sol_state = Optimal, sol_obj_value = Value obj_val,
                         sol_solution = Some xs\<rparr>)))"

subsection \<open>The solver\<close>

text \<open>What \<^verbatim>\<open>logging.info\<close> writes: the two-phase notice, one line per completed pivot
  (its number, the departing row counted from 0, the entering column) and the notice
  of the switch to Bland's rule.\<close>

datatype event = TwoPhase | Pivoted nat nat nat | Cycling

text \<open>\<^verbatim>\<open>Tableau.__exit__\<close>: a termination signal sets the state and is swallowed (True);
  any other exception passes through (False).\<close>

definition exit_tableau :: "exc \<Rightarrow> Tableau \<Rightarrow> bool \<times> Tableau" where
  "exit_tableau e t =
     (case e of
        ReachedOptimality \<Rightarrow> (True, t\<lparr>state := Some Optimal\<rparr>)
      | UnboundedProblem \<Rightarrow> (True, t\<lparr>state := Some Unbounded\<rparr>)
      | InfeasibleProblem \<Rightarrow> (True, t\<lparr>state := Some Infeasible\<rparr>)
      | _ \<Rightarrow> (False, t))"

text \<open>The \<^verbatim>\<open>while iterations < max_iterations\<close> loop of \<^verbatim>\<open>solve\<close>: \<open>k\<close> iterations are
  left, \<open>iterations\<close> are done. It ends with the exception of a \<^verbatim>\<open>pivot\<close> or, the
  budget used up, normally.\<close>

fun pivot_loop ::
  "nat \<Rightarrow> nat \<Rightarrow> bool \<Rightarrow> Tableau \<times> event list \<Rightarrow> (exc + unit) \<times> Tableau \<times> event list" where
  "pivot_loop 0 iterations use_blands_rule w = (Inr (), w)"
| "pivot_loop (Suc k) iterations use_blands_rule (t, lg) =
     (case pivot use_blands_rule t of
        (Inl e, t') \<Rightarrow> (Inl e, t', lg)
      | (Inr _, t') \<Rightarrow>
          (case pivot_idx t' of
             None \<Rightarrow> (Inl AttributeError, t', lg)
           | Some (r, c) \<Rightarrow>
               pivot_loop k (Suc iterations) use_blands_rule
                 (t', lg @ [Pivoted (Suc iterations) (r - 1) c])))"

text \<open>The end of \<^verbatim>\<open>solve\<close> once an exception \<open>e\<close> has left the \<^verbatim>\<open>with\<close> block: a swallowed
  signal leads to the \<^verbatim>\<open>return Solution(...)\<close> after the block, anything else is raised
  to the caller.\<close>

definition leave_with :: "exc \<Rightarrow> Tableau \<times> event list \<Rightarrow> (exc + Solution) \<times> Tableau \<times> event list" where
  "leave_with e w =
     (case exit_tableau e (fst w) of
        (False, t) \<Rightarrow> (Inl e, t, snd w)
      | (True, t) \<Rightarrow> (Solution_init (state t) (obj_value t) (basis t) (solution t), t, snd w))"

text \<open>\<^verbatim>\<open>SimplexSolver.solve\<close>, on the solver's tableau and the log so far. The result is
  the \<^verbatim>\<open>Solution\<close> returned or the exception raised, with the tableau and the log
  as the call leaves them; \<open>None\<close> stands for a call that does not return.
  The recursive call of phase 1 passes \<^verbatim>\<open>max_iterations\<close> on and takes the default
  \<^verbatim>\<open>use_blands_rule=False\<close>; the recursive call of the retry passes
  \<^verbatim>\<open>use_blands_rule=True\<close> and takes the default \<^verbatim>\<open>max_iterations=100\<close>. Both work on
  \<^verbatim>\<open>self.tableau\<close> as it is at the call.\<close>

text \<open>How the first part of the \<^verbatim>\<open>with\<close> block ends: it has left the block with a result
  (\<^verbatim>\<open>return sol\<close>, or an exception on its way through \<^verbatim>\<open>__exit__\<close>), or it goes on
  to the loop.\<close>

datatype 'a flow = Return 'a | Continue "Tableau \<times> event list"

partial_function (option) solve ::
  "int \<Rightarrow> bool \<Rightarrow> Tableau \<times> event list \<Rightarrow> ((exc + Solution) \<times> Tableau \<times> event list) option" where
  "solve max_iterations use_blands_rule w =
     Option.bind
       (if - 1 \<in> set (basis (fst w)) then
          Option.bind
            (solve max_iterations False
               (add_artificial_variables (fst w), snd w @ [TwoPhase]))
            (\<lambda>(res, w1).
               case res of
                 Inl e \<Rightarrow> Some (Return (leave_with e w1))
               | Inr sol \<Rightarrow>
                   if sol_solution sol = None \<or> sol_solution sol = Some []
                   then Some (Return (Inr sol, w1))
                   else (case drop_artificial_variables (fst w1) of
                           (Inl e, t2) \<Rightarrow> Some (Return (leave_with e (t2, snd w1)))
                         | (Inr _, t2) \<Rightarrow> Some (Continue (t2, snd w1))))
        else Some (Continue w))
       (\<lambda>fl. case fl of
                Return r \<Rightarrow> Some r
              | Continue w2 \<Rightarrow>
                  (case pivot_loop (nat max_iterations) 0 use_blands_rule w2 of
                     (Inl e, w3) \<Rightarrow> Some (leave_with e w3)
                   | (Inr _, w3) \<Rightarrow>
                       if \<not> use_blands_rule
                       then Option.bind (solve 100 True (fst w3, snd w3 @ [Cycling]))
                              (\<lambda>(res, w4).
                                 case res of
                                   Inl e \<Rightarrow> Some (leave_with e w4)
                                 | Inr sol \<Rightarrow> Some (Inr sol, w4))
                       else Some (leave_with (UnsolvableError max_iterations) w3)))"

subsection \<open>The tableaus the solver pivots\<close>

text \<open>The shape every pivot of \<^verbatim>\<open>solve\<close> meets: at least one constraint, a matrix of
  \<open>m + 1\<close> rows and \<open>nc\<close> columns, and a basic variable in every row. \<open>same_frame\<close>
  relates two tableaus that differ in the matrix, the state and \<open>pivot_idx\<close> at most.\<close>

definition tableau_inv :: "nat \<Rightarrow> Tableau \<Rightarrow> bool" where
  "tableau_inv nc t \<longleftrightarrow>
     0 < fst (shape t) \<and> 0 < nc \<and> rect (tab t) (Suc (fst (shape t))) nc \<and>
     - 1 \<notin> set (basis t)"

definition same_frame :: "Tableau \<Rightarrow> Tableau \<Rightarrow> bool" where
  "same_frame t t' \<longleftrightarrow>
     shape t' = shape t \<and> obj_func t' = obj_func t \<and> artificial_vars t' = artificial_vars t"

text \<open>What one phase of \<^verbatim>\<open>solve\<close>, run with the budget \<open>M\<close> under the rule \<open>b\<close>, writes to
  the log: no two-phase notice, at most one switch to Bland's rule and none when Bland's
  rule is on from the start, and at most \<open>M\<close> pivots before the switch.\<close>

definition phase_log :: "int \<Rightarrow> bool \<Rightarrow> event list \<Rightarrow> bool" where
  "phase_log M b evs \<longleftrightarrow>
     TwoPhase \<notin> set evs \<and> length (filter (\<lambda>e. e = Cycling) evs) \<le> 1 \<and>
     length (takeWhile (\<lambda>e. e \<noteq> Cycling) evs) \<le> nat M \<and> (b \<longrightarrow> Cycling \<notin> set evs)"

text \<open>A \<^verbatim>\<open>Solution\<close> that classifies the problem: its state is one of the three, it is the
  state the tableau is left in, and the assignment is present, and not empty, exactly
  when the state is \<open>Optimal\<close>.\<close>

definition classifies :: "Solution \<Rightarrow> Tableau \<Rightarrow> bool" where
  "classifies sol t \<longleftrightarrow>
     state t = Some (sol_state sol) \<and> sol_state sol \<in> {Optimal, Unbounded, Infeasible} \<and>
     (sol_state sol = Optimal) = (sol_solution sol \<noteq> None) \<and> sol_solution sol \<noteq> Some []"

text \<open>What a phase of \<^verbatim>\<open>solve\<close> ends with, run with the budget \<open>M\<close> under the rule \<open>b\<close>: a
  \<^verbatim>\<open>Solution\<close> that classifies the problem, or \<open>UnsolvableError\<close>, which under Bland's rule
  carries \<open>M\<close>.\<close>

definition phase_result :: "int \<Rightarrow> bool \<Rightarrow> exc + Solution \<Rightarrow> Tableau \<Rightarrow> bool" where
  "phase_result M b res t \<longleftrightarrow>
     (case res of
        Inr sol \<Rightarrow> classifies sol t
      | Inl e \<Rightarrow> (\<exists>k. e = UnsolvableError k) \<and> (b \<longrightarrow> e = UnsolvableError M))"

subsection \<open>Concrete tableaus\<close>

text \<open>Small tableaus of one constraint and two variables: one at an optimum, one with a
  negative right-hand side and no negative cost, one whose entering column has no
  positive entry.\<close>

definition optimal_tab :: Tableau where
  "optimal_tab = \<lparr> obj_func = [1, 0], tab = [[0, 1, 1], [1, 1, 1]], shape = (1, 2),
      state = None, pivot_idx = None, artificial_vars = None \<rparr>"

definition infeasible_tab :: Tableau where
  "infeasible_tab = \<lparr> obj_func = [1, 0], tab = [[0, 1, 1], [1, 1, - 1]], shape = (1, 2),
      state = None, pivot_idx = None, artificial_vars = None \<rparr>"

definition unbounded_tab :: Tableau where
  "unbounded_tab = \<lparr> obj_func = [1, 0], tab = [[- 1, 0, 0], [- 1, 1, 1]], shape = (1, 2),
      state = None, pivot_idx = None, artificial_vars = None \<rparr>"

text \<open>A tableau whose row 0 holds its most negative entry twice, after a lesser negative
  one.\<close>

definition tie_tab :: Tableau where
  "tie_tab = \<lparr> obj_func = [1, 3, 3, 0], tab = [[- 1, - 3, - 3, 0, 0], [1, 1, 1, 1, 4]],
      shape = (1, 4), state = None, pivot_idx = None, artificial_vars = None \<rparr>"

text \<open>The cycling problem of \<^verbatim>\<open>test_cases.py\<close> (case 3) with its first two constraints
  exchanged, and the two-phase problem (case 6) with its first and last constraints
  exchanged.\<close>

definition bland_tab :: Tableau where
  "bland_tab = Tableau_init [10, - 57, - 9, - 24, 0, 0, 0]
     [[1/2, - 3/2, - 1/2, 1, 0, 1, 0], [1/2, - 11/2, - 5/2, 9, 1, 0, 0], [1, 0, 0, 0, 0, 0, 1]]
     [0, 0, 1]"

definition perm_tab :: Tableau where
  "perm_tab = Tableau_init [8, 10, 0, 0]
     [[1, 1/2, 0, - 1], [1, 1, 1, 0], [1, - 1, 0, 0]] [4, 9, 1]"

text \<open>A tableau of one constraint whose second variable is basic.\<close>

definition dep_tab :: Tableau where
  "dep_tab = \<lparr> obj_func = [2, 0], tab = [[- 2, 0, 0], [2, 1, 4]], shape = (1, 2),
      state = None, pivot_idx = None, artificial_vars = None \<rparr>"

text \<open>Cases 1, 2 (the Klee-Minty cube) and 3 (the cycling problem) of \<^verbatim>\<open>test_cases.py\<close>,
  as \<^verbatim>\<open>SimplexSolver.__init__\<close> builds their tableaus.\<close>

definition test_case_1 :: Tableau where
  "test_case_1 = Tableau_init [2, 3, 0, 0, 0]
     [[1, - 2, 1, 0, 0], [2, 1, 0, 1, 0], [0, 1, 0, 0, 1]] [4, 18, 10]"

definition test_case_2 :: Tableau where
  "test_case_2 = Tableau_init [100, 10, 1, 0, 0, 0]
     [[1, 0, 0, 1, 0, 0], [20, 1, 0, 0, 1, 0], [200, 20, 1, 0, 0, 1]] [1, 100, 10000]"

definition test_case_3 :: Tableau where
  "test_case_3 = Tableau_init [10, - 57, - 9, - 24, 0, 0, 0]
     [[1/2, - 11/2, - 5/2, 9, 1, 0, 0], [1/2, - 3/2, - 1/2, 1, 0, 1, 0], [1, 0, 0, 0, 0, 0, 1]]
     [0, 0, 1]"

text \<open>Maximise \<open>- x1\<close> under \<open>x1 + x2 = 1\<close>: the right-hand side column is the unit
  vector of the only row.\<close>

definition rhs_unit_problem :: Tableau where
  "rhs_unit_problem = Tableau_init [- 1, 0] [[1, 1]] [1]"

text \<open>Maximise \<open>x1 + 2 x2\<close> under \<open>x1 + x2 = 2\<close> and \<open>x1 + x3 = 1\<close>: the first row has no
  basic variable, and every pivot stays within the integers. The Klee-Minty cube in
  two variables, of integers as well. The problem of one variable and no constraint.\<close>

definition two_phase_problem :: Tableau where
  "two_phase_problem = Tableau_init [1, 2, 0] [[1, 1, 0], [1, 0, 1]] [2, 1]"

definition klee_minty_2 :: Tableau where
  "klee_minty_2 = Tableau_init [10, 1, 0, 0] [[1, 0, 1, 0], [20, 1, 0, 1]] [1, 100]"

definition no_constraint_problem :: Tableau where
  "no_constraint_problem = Tableau_init [1] [] []"

text \<open>The tableau at which phase 1 of \<open>two_phase_problem\<close> ends: the artificial
  variable of column 3 has left the basis.\<close>

definition two_phase_end :: Tableau where
  "two_phase_end =
     \<lparr> obj_func = [1, 2, 0], tab = [[0, 0, 0, 1, 0], [0, 1, - 1, 1, 1], [1, 0, 1, 0, 1]],
       shape = (2, 3), state = Some Optimal, pivot_idx = Some (1, 1),
       artificial_vars = Some [3] \<rparr>"

text \<open>The system \<open>x1 + x2 = 1\<close>, \<open>x1 + x2 = 2\<close>, which has no solution, and the tableau
  at which its phase 1 ends: the artificial variable of column 3 is basic in row 2 with
  value 1.\<close>

definition infeasible_system :: Tableau where
  "infeasible_system = Tableau_init [1, 1] [[1, 1], [1, 1]] [1, 2]"

definition phase1_end :: Tableau where
  "phase1_end =
     \<lparr> obj_func = [1, 1], tab = [[0, 0, 2, 0, - 1], [1, 1, 1, 0, 1], [0, 0, - 1, 1, 1]],
       shape = (2, 2), state = Some Optimal, pivot_idx = Some (1, 0),
       artificial_vars = Some [2, 3] \<rparr>"

declare solve.simps [code]

section \<open>Properties of the primitives\<close>

lemma min_list1_fold: "min_list1 x xs = fold min xs x"
  by (induction xs arbitrary: x) (simp_all add: min.commute)

lemma min_list1_Min: "min_list1 x xs = Min (set (x # xs))"
  by (simp only: min_list1_fold Min.set_eq_fold)

lemma max_list1_fold: "max_list1 x xs = fold max xs x"
  by (induction xs arbitrary: x) (simp_all add: max.commute)

lemma max_list1_Max: "max_list1 x xs = Max (set (x # xs))"
  by (simp only: max_list1_fold Max.set_eq_fold)

lemma index_of_less: "v \<in> set xs \<Longrightarrow> index_of xs v < length xs"
  by (induction xs) auto

lemma index_of_nth: "v \<in> set xs \<Longrightarrow> xs ! index_of xs v = v"
  by (induction xs) auto

lemma index_of_first: "j < index_of xs v \<Longrightarrow> xs ! j \<noteq> v"
proof (induction xs arbitrary: j)
  case Nil
  then show ?case by simp
next
  case (Cons x xs)
  then show ?case by (cases j) (auto split: if_splits)
qed

lemma set_argwhere: "set (argwhere p xs) = {i. i < length xs \<and> p (xs ! i)}"
  by (auto simp: argwhere_def)

lemma argwhere_Nil: "argwhere p xs = [] \<longleftrightarrow> (\<forall>v \<in> set xs. \<not> p v)"
  by (auto simp: argwhere_def filter_empty_conv in_set_conv_nth)
     (metis nth_mem)

lemma argmin_props:
  assumes "xs \<noteq> []"
  shows "\<exists>d. argmin xs = Inr d \<and> d < length xs \<and> (\<forall>i < length xs. xs ! d \<le> xs ! i)
            \<and> (\<forall>i < d. xs ! d < xs ! i)"
proof -
  obtain x ys where xs: "xs = x # ys" using assms by (cases xs) auto
  let ?m = "Min (set xs)"
  let ?d = "index_of xs ?m"
  have am: "argmin xs = Inr ?d" by (simp add: argmin_def xs min_list1_Min)
  have mem: "?m \<in> set xs" using assms by (intro Min_in) auto
  have d: "?d < length xs" and nth: "xs ! ?d = ?m"
    using mem by (rule index_of_less, rule index_of_nth)
  have le: "\<forall>i < length xs. xs ! ?d \<le> xs ! i" by (simp add: nth)
  have "\<forall>i < ?d. xs ! ?d < xs ! i"
  proof (intro allI impI)
    fix i assume i: "i < ?d"
    then have "xs ! i \<noteq> ?m" by (rule index_of_first)
    moreover have "?m \<le> xs ! i" using i d by simp
    ultimately show "xs ! ?d < xs ! i" by (simp add: nth)
  qed
  with am d le show ?thesis by blast
qed

section \<open>Properties of the derived basis\<close>

lemma basis_row_Nil: "basis_row [] row = - 1"
  by (simp add: basis_row_def)

lemma basis_row_snoc:
  "basis_row (cols @ [c]) row = (if row = c then int (length cols) else basis_row cols row)"
  by (simp add: basis_row_def enumerate_append_eq)

lemma basis_row_cases:
  "(basis_row cols row = - 1 \<and> (\<forall>j < length cols. cols ! j \<noteq> row)) \<or>
   (\<exists>j < length cols. basis_row cols row = int j \<and> cols ! j = row \<and>
        (\<forall>k < length cols. j < k \<longrightarrow> cols ! k \<noteq> row))"
proof (induction cols rule: rev_induct)
  case Nil
  then show ?case by (simp add: basis_row_Nil)
next
  case (snoc c cols)
  show ?case
  proof (cases "row = c")
    case True
    then show ?thesis by (auto simp: basis_row_snoc nth_append)
  next
    case False
    from snoc show ?thesis
    proof
      assume "basis_row cols row = - 1 \<and> (\<forall>j<length cols. cols ! j \<noteq> row)"
      then show ?thesis using False by (auto simp: basis_row_snoc nth_append less_Suc_eq)
    next
      assume "\<exists>j<length cols. basis_row cols row = int j \<and> cols ! j = row \<and>
                (\<forall>k<length cols. j < k \<longrightarrow> cols ! k \<noteq> row)"
      then obtain j where j: "j < length cols" "basis_row cols row = int j" "cols ! j = row"
        "\<forall>k<length cols. j < k \<longrightarrow> cols ! k \<noteq> row" by blast
      have "\<forall>k<length (cols @ [c]). j < k \<longrightarrow> (cols @ [c]) ! k \<noteq> row"
        using j(4) False by (auto simp: nth_append less_Suc_eq)
      then show ?thesis using j False
        by (intro disjI2 exI[of _ j]) (simp add: basis_row_snoc nth_append)
    qed
  qed
qed

lemma basis_row_unassigned:
  "basis_row cols row = - 1 \<longleftrightarrow> (\<forall>j < length cols. cols ! j \<noteq> row)"
  using basis_row_cases [of cols row] by auto

lemma basis_row_assigned:
  "basis_row cols row \<noteq> - 1 \<Longrightarrow>
     0 \<le> basis_row cols row \<and> nat (basis_row cols row) < length cols \<and>
     cols ! nat (basis_row cols row) = row"
  using basis_row_cases [of cols row] by auto

lemma basis_row_ge: "- 1 \<le> basis_row cols row"
  using basis_row_cases [of cols row] by auto

lemma length_basis [simp]: "length (basis t) = fst (shape t)"
  by (simp add: basis_def identity_shifted_def)

lemma basis_nth:
  "i < fst (shape t) \<Longrightarrow>
     basis t ! i = basis_row (columns (tab t)) (unit_vec (Suc (fst (shape t))) (Suc i))"
  by (simp add: basis_def identity_shifted_def)

lemma unit_vec_inj:
  assumes "unit_vec n i = unit_vec n k" "i < n"
  shows "i = k"
proof -
  have "unit_vec n i ! i = unit_vec n k ! i" using assms(1) by simp
  then show ?thesis using assms(2) by (simp add: unit_vec_def split: if_splits)
qed

lemma basis_distinct:
  assumes "i < fst (shape t)" "k < fst (shape t)" "basis t ! i = basis t ! k"
    "basis t ! i \<noteq> - 1"
  shows "i = k"
proof -
  let ?m = "fst (shape t)"
  let ?cols = "columns (tab t)"
  have a: "?cols ! nat (basis t ! i) = unit_vec (Suc ?m) (Suc i)"
    using basis_row_assigned [of ?cols "unit_vec (Suc ?m) (Suc i)"] assms(1,4)
    by (simp add: basis_nth)
  have b: "?cols ! nat (basis t ! k) = unit_vec (Suc ?m) (Suc k)"
    using basis_row_assigned [of ?cols "unit_vec (Suc ?m) (Suc k)"] assms(2,3,4)
    by (simp add: basis_nth)
  have "unit_vec (Suc ?m) (Suc i) = unit_vec (Suc ?m) (Suc k)"
    using a b assms(3) by simp
  then have "Suc i = Suc k" using assms(1) by (intro unit_vec_inj) auto
  then show ?thesis by simp
qed

section \<open>The pivot step\<close>

subsection \<open>Termination signals\<close>

lemma entering_var_none:
  assumes "\<forall>v \<in> set (cost_row t). \<not> v < 0"
  shows "entering_var b t =
           (if \<forall>v \<in> set (solution t). 0 \<le> v then Inl ReachedOptimality
            else Inl InfeasibleProblem)"
proof -
  have "argwhere (\<lambda>v. v < 0) (cost_row t) = []"
    using assms by (simp add: argwhere_Nil)
  then show ?thesis by (simp add: entering_var_def list_all_iff)
qed

text \<open>
  Claim C4. When row 0 has no negative entry left of the right-hand side (\<open>cost_row\<close>),
  \<open>pivot\<close> ends with \<open>ReachedOptimality\<close> if every right-hand side of rows 1..m
  (\<open>solution\<close>) is at least 0 and with \<open>InfeasibleProblem\<close> if one of them is negative; in
  both cases the tableau it leaves is the tableau it was given, so no pivot has been
  performed. Both rules behave so.
\<close>

theorem pivot_without_negative_cost:
  assumes "\<forall>v \<in> set (cost_row t). \<not> v < 0"
  shows "pivot b t =
           (if \<forall>v \<in> set (solution t). 0 \<le> v then (Inl ReachedOptimality, t)
            else (Inl InfeasibleProblem, t))"
  using entering_var_none [OF assms, of b] by (simp add: pivot_def)

theorem pivot_without_negative_cost_witness:
  "pivot False optimal_tab = (Inl ReachedOptimality, optimal_tab) \<and>
   pivot True infeasible_tab = (Inl InfeasibleProblem, infeasible_tab)"
proof -
  have h1: "\<forall>v \<in> set (cost_row optimal_tab). \<not> v < 0"
    by (simp add: optimal_tab_def cost_row_def)
  have h2: "\<forall>v \<in> set (cost_row infeasible_tab). \<not> v < 0"
    by (simp add: infeasible_tab_def cost_row_def)
  have "pivot False optimal_tab = (Inl ReachedOptimality, optimal_tab)"
    using pivot_without_negative_cost [OF h1, of False]
    by (simp add: optimal_tab_def solution_def)
  moreover have "pivot True infeasible_tab = (Inl InfeasibleProblem, infeasible_tab)"
    using pivot_without_negative_cost [OF h2, of True]
    by (simp add: infeasible_tab_def solution_def)
  ultimately show ?thesis by blast
qed

lemma pivot_around_not_signal:
  "fst (pivot_around r c t) \<noteq> Inl ReachedOptimality \<and>
   fst (pivot_around r c t) \<noteq> Inl InfeasibleProblem \<and>
   fst (pivot_around r c t) \<noteq> Inl UnboundedProblem"
  by (simp add: pivot_around_def Let_def)

text \<open>
  Claim C10. Whenever \<open>pivot\<close> ends with one of the three termination signals, the
  tableau it leaves is the tableau it was given, matrix and all other attributes: the
  search for the entering variable, the feasibility check and the unboundedness check
  come before \<open>pivot_idx\<close> is written and before \<open>pivot_around\<close> changes the matrix.
\<close>

theorem pivot_signal_keeps_tableau:
  assumes "pivot b t = (Inl e, t')"
    and "e = ReachedOptimality \<or> e = InfeasibleProblem \<or> e = UnboundedProblem"
  shows "t' = t"
proof (cases "entering_var b t")
  case (Inl a)
  then show ?thesis using assms(1) by (simp add: pivot_def)
next
  case ev: (Inr entering)
  show ?thesis
  proof (cases "departing_var b t entering")
    case (Inl a)
    then show ?thesis using assms(1) ev by (simp add: pivot_def)
  next
    case (Inr departing)
    show ?thesis
    proof (cases "tl (tab t) ! departing ! entering \<le> 0")
      case True
      then show ?thesis using assms(1) ev Inr by (simp add: pivot_def)
    next
      case False
      then have "pivot b t = pivot_around (departing + 1) entering
                   (t\<lparr>pivot_idx := Some (departing + 1, entering)\<rparr>)"
        using ev Inr by (simp add: pivot_def)
      then have "fst (pivot_around (departing + 1) entering
                   (t\<lparr>pivot_idx := Some (departing + 1, entering)\<rparr>)) = Inl e"
        using assms(1) by (metis fst_conv)
      then show ?thesis using pivot_around_not_signal assms(2) by metis
    qed
  qed
qed

theorem pivot_signal_keeps_tableau_witness:
  "pivot False unbounded_tab = (Inl UnboundedProblem, snd (pivot False unbounded_tab)) \<and>
   snd (pivot False unbounded_tab) = unbounded_tab"
proof -
  have h: "pivot False unbounded_tab = (Inl UnboundedProblem, snd (pivot False unbounded_tab))"
    by code_simp
  show ?thesis
    using h pivot_signal_keeps_tableau [OF h] by simp
qed

subsection \<open>The entering variable\<close>

text \<open>
  Claim C5. When row 0 has a negative entry left of the right-hand side, an entering
  column is selected and its entry is negative. Under Bland's rule it is the smallest
  column index with a negative entry: no column before it is negative. Under the
  standard rule it holds the most negative entry (no entry of the row is smaller) and
  is the first such column (every entry before it is strictly greater).
\<close>

theorem entering_var_selection:
  assumes "\<exists>v \<in> set (cost_row t). v < 0"
  shows "\<exists>e. entering_var b t = Inr e \<and> e < length (cost_row t) \<and> cost_row t ! e < 0 \<and>
             (b \<longrightarrow> (\<forall>j < e. \<not> cost_row t ! j < 0)) \<and>
             (\<not> b \<longrightarrow> (\<forall>j < length (cost_row t). cost_row t ! e \<le> cost_row t ! j) \<and>
                     (\<forall>j < e. cost_row t ! e < cost_row t ! j))"
proof -
  let ?row = "cost_row t"
  let ?neg = "argwhere (\<lambda>v. v < 0) ?row"
  obtain k where k: "k < length ?row" "?row ! k < 0"
    using assms by (auto simp: in_set_conv_nth)
  then have kin: "k \<in> set ?neg" by (simp add: set_argwhere)
  then obtain w ws where neg: "?neg = w # ws" by (cases ?neg) auto
  show ?thesis
  proof (cases b)
    case True
    let ?e = "min_list1 w ws"
    have e: "?e = Min (set ?neg)" by (simp add: min_list1_Min neg)
    have "?e \<in> set ?neg" unfolding e using kin by (intro Min_in) auto
    then have e1: "?e < length ?row" "?row ! ?e < 0" by (simp_all add: set_argwhere)
    have "\<forall>j < ?e. \<not> ?row ! j < 0"
    proof (intro allI impI notI)
      fix j assume j: "j < ?e" "?row ! j < 0"
      then have "j \<in> set ?neg" using e1 by (simp add: set_argwhere)
      then have "?e \<le> j" unfolding e by (intro Min_le) auto
      then show False using j by simp
    qed
    moreover have "entering_var b t = Inr ?e" using True neg by (simp add: entering_var_def)
    ultimately show ?thesis using e1 True by blast
  next
    case False
    have ne: "?row \<noteq> []" using k by auto
    from argmin_props [OF ne] obtain d where d: "argmin ?row = Inr d" "d < length ?row"
      "\<forall>i < length ?row. ?row ! d \<le> ?row ! i" "\<forall>i < d. ?row ! d < ?row ! i" by blast
    have "?row ! d \<le> ?row ! k" using d(3) k(1) by blast
    then have "?row ! d < 0" using k(2) by simp
    moreover have "entering_var b t = Inr d" using False neg d(1) by (simp add: entering_var_def)
    ultimately show ?thesis using d False by blast
  qed
qed

theorem entering_var_selection_witness:
  "entering_var True tie_tab = Inr 0 \<and> entering_var False tie_tab = Inr 1"
proof -
  have h: "\<exists>v \<in> set (cost_row tie_tab). v < 0" by (simp add: tie_tab_def cost_row_def)
  have c: "cost_row tie_tab = [- 1, - 3, - 3, 0]" by (simp add: tie_tab_def cost_row_def)
  from entering_var_selection [OF h, of True] obtain e where
    e: "entering_var True tie_tab = Inr e" "\<forall>j < e. \<not> cost_row tie_tab ! j < 0" by auto
  have "e = 0"
  proof (rule ccontr)
    assume "e \<noteq> 0"
    then have "\<not> cost_row tie_tab ! 0 < 0" using e(2) by simp
    then show False by (simp add: c)
  qed
  moreover from entering_var_selection [OF h, of False] obtain d where
    d: "entering_var False tie_tab = Inr d" "d < length (cost_row tie_tab)"
       "\<forall>j < length (cost_row tie_tab). cost_row tie_tab ! d \<le> cost_row tie_tab ! j"
       "\<forall>j < d. cost_row tie_tab ! d < cost_row tie_tab ! j" by auto
  have "d = 1"
  proof -
    have "d < 4" using d(2) by (simp add: c)
    moreover have "cost_row tie_tab ! d \<le> - 3" using d(3) [rule_format, of 1] by (simp add: c)
    ultimately show ?thesis using d(4) by (auto simp: c less_Suc_eq numeral_eq_Suc nth_Cons')
  qed
  ultimately show ?thesis using e(1) d(1) by simp
qed

subsection \<open>The departing row\<close>

lemma length_ratios [simp]: "length (ratios t e) = length (tab t) - 1"
  by (simp add: ratios_def)

lemma ratios_nth:
  "i < length (tab t) - 1 \<Longrightarrow>
     ratios t e ! i = (if tl (tab t) ! i ! e > 0
                       then Fin (last (tl (tab t) ! i) / (tl (tab t) ! i ! e)) else PInf)"
  by (simp add: ratios_def)

lemma tied_characterisation:
  assumes "length bs = length rs"
  shows "set (map fst (filter (\<lambda>(b, r). r = val) (zip bs rs))) =
           {bs ! i | i. i < length rs \<and> rs ! i = val}"
  using assms by (auto simp: in_set_zip image_iff)

text \<open>
  Claim C6, as the code has it. Every constraint row gets the ratio of its right-hand
  side to its entry in the entering column when that entry is strictly positive, and
  the sentinel \<open>PInf\<close> otherwise. The departing row has the minimum ratio. Under the
  standard rule it is the first row of minimum ratio. Under Bland's rule, provided every
  row of minimum ratio has a basic variable (its basis entry is not the marker -1), it
  is the row of minimum ratio whose basic variable has the smallest column index.
\<close>

theorem departing_var_selection:
  assumes rows: "length (tab t) = Suc (fst (shape t))" and m: "0 < fst (shape t)"
    and tied: "b \<longrightarrow> (\<forall>i < fst (shape t).
                 (\<forall>k < fst (shape t). ratios t e ! i \<le> ratios t e ! k) \<longrightarrow> basis t ! i \<noteq> - 1)"
  shows "(\<forall>i < fst (shape t).
            ratios t e ! i = (if tl (tab t) ! i ! e > 0
                              then Fin (last (tl (tab t) ! i) / (tl (tab t) ! i ! e))
                              else PInf)) \<and>
         (\<exists>d < fst (shape t). departing_var b t e = Inr d \<and>
            (\<forall>i < fst (shape t). ratios t e ! d \<le> ratios t e ! i) \<and>
            (if b then \<forall>i < fst (shape t). ratios t e ! i = ratios t e ! d \<longrightarrow>
                          basis t ! d \<le> basis t ! i
             else \<forall>i < d. ratios t e ! d < ratios t e ! i))"
proof -
  let ?m = "fst (shape t)"
  let ?rs = "ratios t e"
  have len: "length ?rs = ?m" using rows by simp
  have part1: "\<forall>i < ?m. ?rs ! i = (if tl (tab t) ! i ! e > 0
                              then Fin (last (tl (tab t) ! i) / (tl (tab t) ! i ! e))
                              else PInf)"
    using rows by (simp add: ratios_nth)
  have ne: "?rs \<noteq> []" using len m by (auto simp del: length_ratios)
  from argmin_props [OF ne] obtain d0 where d0: "argmin ?rs = Inr d0" "d0 < ?m"
    "\<forall>i < ?m. ?rs ! d0 \<le> ?rs ! i" "\<forall>i < d0. ?rs ! d0 < ?rs ! i"
    unfolding len by blast
  have part2: "\<exists>d < ?m. departing_var b t e = Inr d \<and>
            (\<forall>i < ?m. ?rs ! d \<le> ?rs ! i) \<and>
            (if b then \<forall>i < ?m. ?rs ! i = ?rs ! d \<longrightarrow> basis t ! d \<le> basis t ! i
             else \<forall>i < d. ?rs ! d < ?rs ! i)"
  proof (cases b)
    case False
    then have "departing_var b t e = Inr d0" using d0(1) by (simp add: departing_var_def)
    then show ?thesis using d0 False by auto
  next
    case True
    let ?val = "?rs ! d0"
    let ?tied = "map fst (filter (\<lambda>(b, r). r = ?val) (zip (basis t) ?rs))"
    have st: "set ?tied = {basis t ! i | i. i < ?m \<and> ?rs ! i = ?val}"
      using tied_characterisation [of "basis t" ?rs ?val] len by simp
    then have "basis t ! d0 \<in> set ?tied" using d0(2) by auto
    then obtain x xs where tied_eq: "?tied = x # xs" by (cases ?tied) auto
    let ?bmin = "min_list1 x xs"
    have bmin: "?bmin = Min (set ?tied)" by (simp add: min_list1_Min tied_eq)
    have "?bmin \<in> set ?tied" unfolding bmin by (rule Min_in) (simp_all add: tied_eq)
    then obtain i where i: "i < ?m" "?rs ! i = ?val" "basis t ! i = ?bmin"
      unfolding st by auto
    have imin: "\<forall>k < ?m. ?rs ! i \<le> ?rs ! k" using i(2) d0(3) by simp
    then have assigned: "basis t ! i \<noteq> - 1" using tied True i(1) by blast
    let ?d = "index_of (basis t) ?bmin"
    have mem: "?bmin \<in> set (basis t)" using i(1,3) by (metis length_basis nth_mem)
    have d: "?d < ?m" "basis t ! ?d = ?bmin"
      using index_of_less [OF mem] index_of_nth [OF mem] by simp_all
    have "?d = i" using basis_distinct [of ?d t i] d i(1,3) assigned by simp
    have least: "\<forall>k < ?m. ?rs ! k = ?rs ! i \<longrightarrow> basis t ! i \<le> basis t ! k"
    proof (intro allI impI)
      fix k assume "k < ?m" "?rs ! k = ?rs ! i"
      then have "basis t ! k \<in> set ?tied" unfolding st using i(2) by auto
      then have "?bmin \<le> basis t ! k" unfolding bmin by (intro Min_le) auto
      then show "basis t ! i \<le> basis t ! k" using i(3) by simp
    qed
    have "departing_var b t e = Inr ?d"
      using True d0(1) tied_eq by (simp add: departing_var_def Let_def)
    then show ?thesis using \<open>?d = i\<close> i(1) imin least True by auto
  qed
  from part1 part2 show ?thesis by blast
qed

theorem departing_var_selection_witness:
  "ratios bland_tab 0 = [Fin 0, Fin 0, Fin 1] \<and> basis bland_tab = [5, 4, 7] \<and>
   departing_var True bland_tab 0 = Inr 1 \<and> departing_var False bland_tab 0 = Inr 0"
proof -
  have rs: "ratios bland_tab 0 = [Fin 0, Fin 0, Fin 1]" by code_simp
  have bs: "basis bland_tab = [5, 4, 7]" by code_simp
  have rows: "length (tab bland_tab) = Suc (fst (shape bland_tab))"
    and m: "0 < fst (shape bland_tab)" and m3: "fst (shape bland_tab) = 3"
    by (simp_all add: bland_tab_def Tableau_init_def)
  have tied: "b \<longrightarrow> (\<forall>i < fst (shape bland_tab).
      (\<forall>k < fst (shape bland_tab). ratios bland_tab 0 ! i \<le> ratios bland_tab 0 ! k) \<longrightarrow>
      basis bland_tab ! i \<noteq> - 1)" for b
    by (auto simp: m3 bs less_Suc_eq numeral_3_eq_3)
  from departing_var_selection [OF rows m tied, of True] obtain d where
    d: "d < 3" "departing_var True bland_tab 0 = Inr d"
       "\<forall>i < 3. ratios bland_tab 0 ! d \<le> ratios bland_tab 0 ! i"
       "\<forall>i < 3. ratios bland_tab 0 ! i = ratios bland_tab 0 ! d \<longrightarrow>
                 basis bland_tab ! d \<le> basis bland_tab ! i"
    unfolding m3 by auto
  have "d = 1"
  proof -
    have "d \<noteq> 2"
    proof
      assume "d = 2"
      then show False using d(3) [rule_format, of 0] by (simp add: rs)
    qed
    moreover have "d \<noteq> 0"
    proof
      assume "d = 0"
      then show False using d(4) [rule_format, of 1] by (simp add: rs bs)
    qed
    ultimately show ?thesis using d(1) by arith
  qed
  moreover from departing_var_selection [OF rows m tied, of False] obtain d' where
    d': "d' < 3" "departing_var False bland_tab 0 = Inr d'"
       "\<forall>i < 3. ratios bland_tab 0 ! d' \<le> ratios bland_tab 0 ! i"
       "\<forall>i < d'. ratios bland_tab 0 ! d' < ratios bland_tab 0 ! i"
    unfolding m3 by auto
  have "d' = 0"
  proof (rule ccontr)
    assume "d' \<noteq> 0"
    then have "ratios bland_tab 0 ! d' < ratios bland_tab 0 ! 0" using d'(4) by simp
    moreover have "ratios bland_tab 0 ! 0 \<le> ratios bland_tab 0 ! d'"
      using d'(1) by (auto simp: rs less_Suc_eq numeral_3_eq_3)
    ultimately show False by simp
  qed
  ultimately show ?thesis using rs bs d(2) d'(2) by simp
qed

text \<open>
  Without that proviso the claim fails: under Bland's rule the row is looked up by
  \<^verbatim>\<open>self.basis.index\<close>, and when the rows of minimum ratio have no basic variable the
  first row marked -1 is taken, whatever its ratio. In \<open>perm_tab\<close> the ratios are 4, 9
  and 1, the basis is -1, 2, -1, and row 0 departs.
\<close>

theorem departing_var_incomplete_basis_counterexample:
  "basis perm_tab = [- 1, 2, - 1] \<and> entering_var True perm_tab = Inr 0 \<and>
   ratios perm_tab 0 = [Fin 4, Fin 9, Fin 1] \<and> departing_var True perm_tab 0 = Inr 0 \<and>
   ratios perm_tab 0 ! 2 < ratios perm_tab 0 ! 0 \<and>
   pivot_idx (snd (pivot True perm_tab)) = Some (1, 0)"
  by code_simp

section \<open>The solution\<close>

lemma py_setitem_in_range:
  "0 \<le> i \<Longrightarrow> i < int (length xs) \<Longrightarrow> py_setitem xs i v = Inr (xs[nat i := v])"
  by (simp add: py_setitem_def Let_def)

lemma assign_in_range:
  assumes "\<forall>p \<in> set ps. 0 \<le> fst p \<and> fst p < int (length xs)" "distinct (map fst ps)"
  shows "\<exists>ys. assign ps xs = Inr ys \<and> length ys = length xs \<and>
               (\<forall>p \<in> set ps. ys ! nat (fst p) = snd p) \<and>
               (\<forall>k < length xs. int k \<notin> fst ` set ps \<longrightarrow> ys ! k = xs ! k)"
  using assms
proof (induction ps arbitrary: xs)
  case Nil
  then show ?case by simp
next
  case (Cons p ps)
  obtain i v where p: "p = (i, v)" by (cases p)
  let ?xs' = "xs[nat i := v]"
  have i: "0 \<le> i" "i < int (length xs)" using Cons.prems(1) p by auto
  have step: "assign (p # ps) xs = assign ps ?xs'"
    using i by (simp add: p py_setitem_in_range)
  have "\<forall>q \<in> set ps. 0 \<le> fst q \<and> fst q < int (length ?xs')"
    using Cons.prems(1) by simp
  moreover have "distinct (map fst ps)" using Cons.prems(2) by simp
  ultimately obtain ys where ys: "assign ps ?xs' = Inr ys" "length ys = length ?xs'"
    "\<forall>q \<in> set ps. ys ! nat (fst q) = snd q"
    "\<forall>k < length ?xs'. int k \<notin> fst ` set ps \<longrightarrow> ys ! k = ?xs' ! k"
    using Cons.IH [of ?xs'] by blast
  have inotin: "i \<notin> fst ` set ps" using Cons.prems(2) p by auto
  have "int (nat i) = i" using i by simp
  then have "ys ! nat i = ?xs' ! nat i" using ys(4) i inotin by (metis length_list_update nat_less_iff)
  then have head: "ys ! nat i = v" using i by simp
  have rest: "\<forall>k < length xs. int k \<notin> fst ` set (p # ps) \<longrightarrow> ys ! k = xs ! k"
  proof (intro allI impI)
    fix k assume k: "k < length xs" "int k \<notin> fst ` set (p # ps)"
    then have "k \<noteq> nat i" using p i by auto
    moreover have "ys ! k = ?xs' ! k" using ys(4) k by simp
    ultimately show "ys ! k = xs ! k" by simp
  qed
  show ?case using step ys(1,2,3) head rest p by auto
qed

lemma Solution_init_optimal:
  assumes "bas \<noteq> []" "distinct bas" "\<forall>b \<in> set bas. 0 \<le> b" "length sol = length bas"
  shows "\<exists>xs. Solution_init (Some Optimal) v bas sol =
               Inr \<lparr>sol_state = Optimal, sol_obj_value = Value v, sol_solution = Some xs\<rparr> \<and>
            int (length xs) = Max (set bas) + 1 \<and>
            (\<forall>i < length bas. xs ! nat (bas ! i) = sol ! i) \<and>
            (\<forall>k < length xs. int k \<notin> set bas \<longrightarrow> xs ! k = 0)"
proof -
  obtain b bs where bas: "bas = b # bs" using assms(1) by (cases bas) auto
  let ?n = "nat (max_list1 b bs + 1)"
  let ?zero = "replicate ?n (0::rat)"
  have mx: "max_list1 b bs = Max (set bas)" by (simp add: max_list1_Max bas)
  have mx_ge: "\<forall>x \<in> set bas. x \<le> Max (set bas)" by simp
  have "0 \<le> Max (set bas)" using assms(3) bas mx_ge by (metis list.set_intros(1) order_trans)
  then have n: "int ?n = Max (set bas) + 1" using mx by simp
  have rng: "\<forall>p \<in> set (zip bas sol). 0 \<le> fst p \<and> fst p < int (length ?zero)"
  proof
    fix p assume "p \<in> set (zip bas sol)"
    then have "fst p \<in> set bas" by (metis in_set_zipE prod.collapse)
    then show "0 \<le> fst p \<and> fst p < int (length ?zero)" using assms(3) mx_ge n by fastforce
  qed
  have dist: "distinct (map fst (zip bas sol))" using assms(2,4) by simp
  from assign_in_range [OF rng dist] obtain xs where xs: "assign (zip bas sol) ?zero = Inr xs"
    "length xs = length ?zero" "\<forall>p \<in> set (zip bas sol). xs ! nat (fst p) = snd p"
    "\<forall>k < length ?zero. int k \<notin> fst ` set (zip bas sol) \<longrightarrow> xs ! k = ?zero ! k" by blast
  have fstset: "fst ` set (zip bas sol) = set bas"
    using assms(4) by (metis map_fst_zip set_map)
  have c1: "Solution_init (Some Optimal) v bas sol =
               Inr \<lparr>sol_state = Optimal, sol_obj_value = Value v, sol_solution = Some xs\<rparr>"
    using xs(1) bas by (simp add: Solution_init_def)
  have c2: "int (length xs) = Max (set bas) + 1" using xs(2) n by simp
  have c3: "\<forall>i < length bas. xs ! nat (bas ! i) = sol ! i"
  proof (intro allI impI)
    fix i assume "i < length bas"
    then have "(bas ! i, sol ! i) \<in> set (zip bas sol)" using assms(4) by (auto simp: in_set_zip)
    then show "xs ! nat (bas ! i) = sol ! i" using xs(3) by fastforce
  qed
  have c4: "\<forall>k < length xs. int k \<notin> set bas \<longrightarrow> xs ! k = 0"
    using xs(2,4) fstset by simp
  from c1 c2 c3 c4 show ?thesis by blast
qed

text \<open>
  Claim C9. For \<open>Unbounded\<close> the objective value is \<open>Infinity\<close> and the assignment is
  absent; for \<open>Infeasible\<close> the objective value is \<open>NaN\<close> and the assignment is absent; both
  whatever the basis and the right-hand sides. For \<open>Optimal\<close> the objective value is the
  one given, the assignment has length (largest basis index + 1), holds at the basic
  variable of every row the right-hand side of that row, and is zero everywhere else.
  The basis here is a final basis: every row has a basic variable (no entry is the
  marker -1), no two rows share one (\<open>basis_distinct\<close> shows it of every derived basis),
  and there is one right-hand side per row.
\<close>

theorem Solution_init_builds:
  "Solution_init (Some Unbounded) v bas sol =
     Inr \<lparr>sol_state = Unbounded, sol_obj_value = Infinity, sol_solution = None\<rparr> \<and>
   Solution_init (Some Infeasible) v bas sol =
     Inr \<lparr>sol_state = Infeasible, sol_obj_value = NaN, sol_solution = None\<rparr> \<and>
   (bas \<noteq> [] \<and> distinct bas \<and> (\<forall>b \<in> set bas. 0 \<le> b) \<and> length sol = length bas \<longrightarrow>
      (\<exists>xs. Solution_init (Some Optimal) v bas sol =
               Inr \<lparr>sol_state = Optimal, sol_obj_value = Value v, sol_solution = Some xs\<rparr> \<and>
            int (length xs) = Max (set bas) + 1 \<and>
            (\<forall>i < length bas. xs ! nat (bas ! i) = sol ! i) \<and>
            (\<forall>k < length xs. int k \<notin> set bas \<longrightarrow> xs ! k = 0)))"
proof (intro conjI impI)
  show "Solution_init (Some Unbounded) v bas sol =
     Inr \<lparr>sol_state = Unbounded, sol_obj_value = Infinity, sol_solution = None\<rparr>"
    by (simp add: Solution_init_def)
  show "Solution_init (Some Infeasible) v bas sol =
     Inr \<lparr>sol_state = Infeasible, sol_obj_value = NaN, sol_solution = None\<rparr>"
    by (simp add: Solution_init_def)
next
  assume "bas \<noteq> [] \<and> distinct bas \<and> (\<forall>b \<in> set bas. 0 \<le> b) \<and> length sol = length bas"
  then show "\<exists>xs. Solution_init (Some Optimal) v bas sol =
               Inr \<lparr>sol_state = Optimal, sol_obj_value = Value v, sol_solution = Some xs\<rparr> \<and>
            int (length xs) = Max (set bas) + 1 \<and>
            (\<forall>i < length bas. xs ! nat (bas ! i) = sol ! i) \<and>
            (\<forall>k < length xs. int k \<notin> set bas \<longrightarrow> xs ! k = 0)"
    using Solution_init_optimal [of bas sol v] by blast
qed

theorem Solution_init_builds_witness:
  "Solution_init (Some Optimal) 38 [2, 0, 1] [20, 4, 10] =
     Inr \<lparr>sol_state = Optimal, sol_obj_value = Value 38, sol_solution = Some [4, 10, 20]\<rparr>"
proof -
  have h: "[2, 0, 1] \<noteq> [] \<and> distinct [2, 0, 1 :: int] \<and> (\<forall>b \<in> set [2, 0, 1 :: int]. 0 \<le> b) \<and>
           length [20, 4, 10 :: rat] = length [2, 0, 1 :: int]" by simp
  from Solution_init_builds [of 38 "[2, 0, 1]" "[20, 4, 10]"] h
  obtain xs where xs: "Solution_init (Some Optimal) 38 [2, 0, 1] [20, 4, 10] =
      Inr \<lparr>sol_state = Optimal, sol_obj_value = Value 38, sol_solution = Some xs\<rparr>"
    "int (length xs) = Max (set [2, 0, 1]) + 1"
    "\<forall>i < length [2, 0, 1 :: int]. xs ! nat ([2, 0, 1] ! i) = [20, 4, 10] ! i" by blast
  have len: "length xs = 3" using xs(2) by simp
  have "xs ! 2 = 20" using xs(3) [rule_format, of 0] by simp
  moreover have "xs ! 0 = 4" using xs(3) [rule_format, of 1] by simp
  moreover have "xs ! 1 = 10" using xs(3) [rule_format, of 2] by simp
  ultimately have "xs = [4, 10, 20]" using len
    by (intro nth_equalityI) (auto simp: less_Suc_eq numeral_3_eq_3 numeral_2_eq_2 nth_Cons')
  then show ?thesis using xs(1) by simp
qed

section \<open>The pivot operation\<close>

lemma rect_nth: "rect M nr nc \<Longrightarrow> i < nr \<Longrightarrow> length (M ! i) = nc"
  by (simp add: rect_def)

lemma rect_hd: "rect M nr nc \<Longrightarrow> 0 < nr \<Longrightarrow> length (hd M) = nc"
  by (cases M) (auto simp: rect_def)

lemma rectI: "length M = nr \<Longrightarrow> (\<And>i. i < nr \<Longrightarrow> length (M ! i) = nc) \<Longrightarrow> rect M nr nc"
  by (auto simp: rect_def in_set_conv_nth)

lemma length_columns: "rect M nr nc \<Longrightarrow> 0 < nr \<Longrightarrow> length (columns M) = nc"
  by (simp add: columns_def rect_hd)

lemma columns_nth:
  "rect M nr nc \<Longrightarrow> 0 < nr \<Longrightarrow> j < nc \<Longrightarrow> columns M ! j = map (\<lambda>r. r ! j) M"
  by (simp add: columns_def rect_hd)

lemma column_eq_unit_vec:
  assumes "rect M nr nc" "0 < nr" "j < nc"
  shows "columns M ! j = unit_vec nr k \<longleftrightarrow> (\<forall>i < nr. M ! i ! j = (if i = k then 1 else 0))"
proof -
  have len: "length M = nr" using assms(1) by (simp add: rect_def)
  have "columns M ! j = unit_vec nr k \<longleftrightarrow> map (\<lambda>r. r ! j) M = unit_vec nr k"
    using assms by (simp add: columns_nth)
  also have "\<dots> \<longleftrightarrow> (\<forall>i < nr. M ! i ! j = (if i = k then 1 else 0))"
    using len by (auto simp: list_eq_iff_nth_eq unit_vec_def)
  finally show ?thesis .
qed

lemma pivot_around_result:
  assumes "rect (tab t) nr nc" "r < nr" "c < nc"
  shows "fst (pivot_around r c t) = Inr ()"
    and "snd (pivot_around r c t) = t\<lparr>tab := tab (snd (pivot_around r c t))\<rparr>"
    and "rect (tab (snd (pivot_around r c t))) nr nc"
    and "\<And>i j. i < nr \<Longrightarrow> j < nc \<Longrightarrow>
           tab (snd (pivot_around r c t)) ! i ! j =
             (if i = r then tab t ! r ! j / (tab t ! r ! c)
              else tab t ! i ! j - tab t ! r ! j / (tab t ! r ! c) * (tab t ! i ! c))"
proof -
  let ?M = "tab t"
  let ?p = "?M ! r ! c"
  let ?T1 = "?M[r := map (\<lambda>x. x / ?p) (?M ! r)]"
  let ?T2 = "map (\<lambda>(i, row).
                        map2 (-) row
                          (if i \<noteq> r then map (\<lambda>x. x * (?T1 ! i ! c)) (?T1 ! r)
                           else replicate (length (?T1 ! r)) 0))
                     (enumerate 0 ?T1)"
  have len: "length ?M = nr" using assms(1) by (simp add: rect_def)
  have rowlen: "\<And>i. i < nr \<Longrightarrow> length (?M ! i) = nc" using assms(1) by (rule rect_nth)
  have guard: "r < length ?M \<and> c < length (hd ?M)"
    using assms len rect_hd [OF assms(1)] by auto
  then have eq: "pivot_around r c t = (Inr (), t\<lparr>tab := ?T2\<rparr>)"
    by (simp add: pivot_around_def Let_def)
  show "fst (pivot_around r c t) = Inr ()" by (simp add: eq)
  show "snd (pivot_around r c t) = t\<lparr>tab := tab (snd (pivot_around r c t))\<rparr>"
    by (simp add: eq)
  have T1r: "?T1 ! r = map (\<lambda>x. x / ?p) (?M ! r)" using guard by simp
  have T1len: "\<And>i. i < nr \<Longrightarrow> length (?T1 ! i) = nc"
    using rowlen len assms(2) by (simp add: nth_list_update)
  have T2i: "\<And>i. i < nr \<Longrightarrow> ?T2 ! i = map2 (-) (?T1 ! i)
                          (if i \<noteq> r then map (\<lambda>x. x * (?T1 ! i ! c)) (?T1 ! r)
                           else replicate (length (?T1 ! r)) 0)"
    using len by (simp add: nth_enumerate_eq)
  have T2len: "\<And>i. i < nr \<Longrightarrow> length (?T2 ! i) = nc"
    using T1len assms(2) by (simp add: T2i del: nth_list_update_eq)
  have "rect ?T2 nr nc" using len T2len by (intro rectI) simp_all
  then show "rect (tab (snd (pivot_around r c t))) nr nc" by (simp add: eq)
  show "tab (snd (pivot_around r c t)) ! i ! j =
             (if i = r then ?M ! r ! j / ?p
              else ?M ! i ! j - ?M ! r ! j / ?p * (?M ! i ! c))" if ij: "i < nr" "j < nc" for i j
  proof (cases "i = r")
    case True
    have "?T2 ! r ! j = ?T1 ! r ! j - 0"
      using ij T1len [OF assms(2)] assms(2) by (simp add: T2i del: nth_list_update_eq)
    also have "\<dots> = ?M ! r ! j / ?p" using ij rowlen [OF assms(2)] by (simp add: T1r)
    finally show ?thesis using True by (simp add: eq)
  next
    case False
    have Ti: "?T1 ! i = ?M ! i" using False by simp
    have "?T2 ! i ! j = ?T1 ! i ! j - (?T1 ! r ! j) * (?T1 ! i ! c)"
      using ij False T1len [OF assms(2)] T1len [OF ij(1)]
      by (simp add: T2i del: nth_list_update_eq nth_list_update_neq)
    also have "\<dots> = ?M ! i ! j - ?M ! r ! j / ?p * (?M ! i ! c)"
      using ij rowlen [OF assms(2)] by (simp add: T1r Ti)
    finally show ?thesis using False by (simp add: eq)
  qed
qed

lemma pivot_around_entering_column:
  assumes "rect (tab t) nr nc" "r < nr" "c < nc" "tab t ! r ! c \<noteq> 0"
  shows "columns (tab (snd (pivot_around r c t))) ! c = unit_vec nr r"
proof -
  note res = pivot_around_result [OF assms(1,2,3)]
  have nr: "0 < nr" using assms(2) by simp
  show ?thesis
    unfolding column_eq_unit_vec [OF res(3) nr assms(3)]
    using assms(3,4) by (simp add: res(4))
qed

lemma pivot_around_other_columns:
  assumes "rect (tab t) nr nc" "r < nr" "c < nc"
    and "j < nc" "k \<noteq> r" "columns (tab t) ! j = unit_vec nr k"
  shows "columns (tab (snd (pivot_around r c t))) ! j = unit_vec nr k"
proof -
  note res = pivot_around_result [OF assms(1,2,3)]
  have nr: "0 < nr" using assms(2) by simp
  have unit: "\<forall>i < nr. tab t ! i ! j = (if i = k then 1 else 0)"
    using column_eq_unit_vec [OF assms(1) nr assms(4), of k] assms(6) by blast
  then have zero: "tab t ! r ! j = 0" using assms(2,5) by simp
  show ?thesis
    unfolding column_eq_unit_vec [OF res(3) nr assms(4)]
    using unit zero assms(4,5) by (simp add: res(4))
qed

text \<open>
  Claim C7, as the code has it. In a tableau of \<open>nr\<close> rows and \<open>nc\<close> columns, with a pivot
  element that is not 0, \<open>pivot_around r c\<close> divides row \<open>r\<close> by the pivot element and
  subtracts from every other row (row 0 included) the normalised pivot row times that
  row's entry in column \<open>c\<close>; afterwards column \<open>c\<close> is the unit vector with its 1 in
  row \<open>r\<close>, and every column that was a unit vector with its 1 in another row than \<open>r\<close> is
  the same unit vector still.
\<close>

theorem pivot_around_gauss_jordan:
  assumes "rect (tab t) nr nc" "r < nr" "c < nc" "tab t ! r ! c \<noteq> 0"
  shows "fst (pivot_around r c t) = Inr () \<and>
         rect (tab (snd (pivot_around r c t))) nr nc \<and>
         tab (snd (pivot_around r c t)) ! r = map (\<lambda>x. x / (tab t ! r ! c)) (tab t ! r) \<and>
         (\<forall>i < nr. i \<noteq> r \<longrightarrow>
            tab (snd (pivot_around r c t)) ! i =
              map2 (\<lambda>x y. x - y * (tab t ! i ! c)) (tab t ! i)
                (tab (snd (pivot_around r c t)) ! r)) \<and>
         columns (tab (snd (pivot_around r c t))) ! c = unit_vec nr r \<and>
         (\<forall>j < nc. \<forall>k < nr. k \<noteq> r \<and> columns (tab t) ! j = unit_vec nr k \<longrightarrow>
            columns (tab (snd (pivot_around r c t))) ! j = unit_vec nr k)"
proof -
  let ?M = "tab t"
  let ?T = "tab (snd (pivot_around r c t))"
  let ?p = "?M ! r ! c"
  note res = pivot_around_result [OF assms(1,2,3)]
  have nr: "0 < nr" using assms(2) by simp
  have rowlen: "\<And>i. i < nr \<Longrightarrow> length (?M ! i) = nc" using assms(1) by (rule rect_nth)
  have Tlen: "\<And>i. i < nr \<Longrightarrow> length (?T ! i) = nc" using res(3) by (rule rect_nth)
  have rowr: "?T ! r = map (\<lambda>x. x / ?p) (?M ! r)"
    using assms(2) rowlen Tlen by (intro nth_equalityI) (simp_all add: res(4))
  have rows: "\<forall>i < nr. i \<noteq> r \<longrightarrow>
            ?T ! i = map2 (\<lambda>x y. x - y * (?M ! i ! c)) (?M ! i) (?T ! r)"
  proof (intro allI impI)
    fix i assume i: "i < nr" "i \<noteq> r"
    show "?T ! i = map2 (\<lambda>x y. x - y * (?M ! i ! c)) (?M ! i) (?T ! r)"
      using i assms(2) rowlen Tlen by (intro nth_equalityI) (simp_all add: res(4))
  qed
  have colc: "columns ?T ! c = unit_vec nr r"
    using assms by (rule pivot_around_entering_column)
  have others: "\<forall>j < nc. \<forall>k < nr. k \<noteq> r \<and> columns ?M ! j = unit_vec nr k \<longrightarrow>
            columns ?T ! j = unit_vec nr k"
    using pivot_around_other_columns [OF assms(1,2,3)] by blast
  from res(1) res(3) rowr rows colc others show ?thesis by blast
qed

theorem pivot_around_gauss_jordan_witness:
  "fst (pivot_around 1 0 dep_tab) = Inr () \<and>
   tab (snd (pivot_around 1 0 dep_tab)) = [[0, 1, 4], [1, 1/2, 2]] \<and>
   columns (tab (snd (pivot_around 1 0 dep_tab))) ! 0 = unit_vec 2 1"
proof -
  have h: "rect (tab dep_tab) 2 3" "(1::nat) < 2" "(0::nat) < 3" "tab dep_tab ! 1 ! 0 \<noteq> 0"
    by (simp_all add: dep_tab_def rect_def)
  note gj = pivot_around_gauss_jordan [OF h]
  have a: "fst (pivot_around 1 0 dep_tab) = Inr ()" using gj by blast
  have b: "columns (tab (snd (pivot_around 1 0 dep_tab))) ! 0 = unit_vec 2 1" using gj by blast
  have c: "tab (snd (pivot_around 1 0 dep_tab)) = [[0, 1, 4], [1, 1/2, 2]]" by code_simp
  from a c b show ?thesis by blast
qed

text \<open>
  The column of the departing variable, the unit vector with its 1 in row \<open>r\<close> itself, does
  not stay one: in \<open>dep_tab\<close> the second variable is basic in row 1, and after the pivot
  around row 1 and column 0 its column is 1, 1/2.
\<close>

theorem pivot_around_departing_column_counterexample:
  "basis dep_tab = [1] \<and> columns (tab dep_tab) ! 1 = unit_vec 2 1 \<and>
   tab dep_tab ! 1 ! 0 \<noteq> 0 \<and>
   columns (tab (snd (pivot_around 1 0 dep_tab))) ! 1 = [1, 1/2] \<and>
   \<not> (\<exists>k. columns (tab (snd (pivot_around 1 0 dep_tab))) ! 1 = unit_vec 2 k)"
proof -
  have a: "basis dep_tab = [1]" by code_simp
  have b: "columns (tab dep_tab) ! 1 = unit_vec 2 1" by code_simp
  have c: "tab dep_tab ! 1 ! 0 \<noteq> 0" by (simp add: dep_tab_def)
  have d: "columns (tab (snd (pivot_around 1 0 dep_tab))) ! 1 = [1, 1/2]" by code_simp
  have u: "unit_vec 2 k = [if 0 = k then 1 else 0, if 1 = k then 1 else 0]" for k
    by (simp add: unit_vec_def numeral_2_eq_2 upt_rec)
  have e: "\<not> (\<exists>k. columns (tab (snd (pivot_around 1 0 dep_tab))) ! 1 = unit_vec 2 k)"
    unfolding d u by auto
  from a b c d e show ?thesis by blast
qed

section \<open>Termination of the solver\<close>

subsection \<open>A pivot keeps a basic variable in every row\<close>

lemma basis_complete_iff:
  assumes "rect (tab t) (Suc m) nc" "fst (shape t) = m"
  shows "- 1 \<notin> set (basis t) \<longleftrightarrow>
           (\<forall>i < m. \<exists>j < nc. columns (tab t) ! j = unit_vec (Suc m) (Suc i))"
proof -
  have lc: "length (columns (tab t)) = nc" using assms(1) by (simp add: length_columns)
  have "- 1 \<notin> set (basis t) \<longleftrightarrow> (\<forall>i < m. basis t ! i \<noteq> - 1)"
    using assms(2) by (metis in_set_conv_nth length_basis)
  also have "\<dots> \<longleftrightarrow> (\<forall>i < m. \<exists>j < nc. columns (tab t) ! j = unit_vec (Suc m) (Suc i))"
    using assms(2) lc by (auto simp: basis_nth basis_row_unassigned)
  finally show ?thesis .
qed

lemma entering_var_range:
  "entering_var b t = Inr e \<Longrightarrow> e < length (cost_row t)"
proof -
  assume a: "entering_var b t = Inr e"
  let ?row = "cost_row t"
  let ?neg = "argwhere (\<lambda>v. v < 0) ?row"
  from a obtain w ws where neg: "?neg = w # ws"
    by (cases ?neg) (auto simp: entering_var_def Let_def split: if_splits)
  show ?thesis
  proof (cases b)
    case True
    then have "e = min_list1 w ws" using a neg by (simp add: entering_var_def)
    then have "e = Min (set ?neg)" by (simp add: min_list1_Min neg)
    moreover have "Min (set ?neg) \<in> set ?neg" by (rule Min_in) (simp_all add: neg)
    ultimately show ?thesis by (simp add: set_argwhere)
  next
    case False
    then have am: "argmin ?row = Inr e" using a neg by (simp add: entering_var_def)
    have "?row \<noteq> []" using neg by (auto simp: argwhere_def)
    from argmin_props [OF this] am show ?thesis by auto
  qed
qed

lemma entering_var_signal:
  "entering_var b t = Inl x \<Longrightarrow> x = ReachedOptimality \<or> x = InfeasibleProblem"
proof -
  assume a: "entering_var b t = Inl x"
  let ?row = "cost_row t"
  show ?thesis
  proof (cases "argwhere (\<lambda>v. v < 0) ?row")
    case Nil
    then show ?thesis using a by (auto simp: entering_var_def Let_def split: if_splits)
  next
    case (Cons w ws)
    then have "?row \<noteq> []" by (auto simp: argwhere_def)
    from argmin_props [OF this] obtain d where "argmin ?row = Inr d" by blast
    then show ?thesis using a Cons by (auto simp: entering_var_def split: if_splits)
  qed
qed

lemma departing_var_range:
  assumes "length (tab t) = Suc (fst (shape t))" "0 < fst (shape t)"
  shows "\<exists>d < fst (shape t). departing_var b t e = Inr d"
proof -
  let ?m = "fst (shape t)"
  let ?rs = "ratios t e"
  have len: "length ?rs = ?m" using assms(1) by simp
  have ne: "?rs \<noteq> []" using len assms(2) by (auto simp del: length_ratios)
  from argmin_props [OF ne] obtain d0 where d0: "argmin ?rs = Inr d0" "d0 < ?m"
    unfolding len by blast
  show ?thesis
  proof (cases b)
    case False
    then show ?thesis using d0 by (simp add: departing_var_def)
  next
    case True
    let ?tied = "map fst (filter (\<lambda>(b, r). r = ?rs ! d0) (zip (basis t) ?rs))"
    have st: "set ?tied = {basis t ! i | i. i < ?m \<and> ?rs ! i = ?rs ! d0}"
      using tied_characterisation [of "basis t" ?rs "?rs ! d0"] len by simp
    then have "basis t ! d0 \<in> set ?tied" using d0(2) by auto
    then obtain x xs where tied_eq: "?tied = x # xs" by (cases ?tied) auto
    have "min_list1 x xs \<in> set ?tied"
      unfolding min_list1_Min tied_eq [symmetric] by (rule Min_in) (simp_all add: tied_eq)
    then have "min_list1 x xs \<in> set (basis t)" unfolding st by auto
    then have "index_of (basis t) (min_list1 x xs) < ?m" using index_of_less by fastforce
    moreover have "departing_var b t e = Inr (index_of (basis t) (min_list1 x xs))"
      using True d0(1) tied_eq by (simp add: departing_var_def Let_def)
    ultimately show ?thesis by blast
  qed
qed

lemma length_cost_row: "rect (tab t) (Suc m) nc \<Longrightarrow> length (cost_row t) = nc - 1"
  by (simp add: cost_row_def rect_nth)

lemma basis_cong: "tab t' = tab t \<Longrightarrow> shape t' = shape t \<Longrightarrow> basis t' = basis t"
  by (simp add: basis_def)

lemma pivot_cases:
  assumes inv: "tableau_inv nc t"
  shows "(\<exists>e. pivot b t = (Inl e, t) \<and>
              (e = ReachedOptimality \<or> e = InfeasibleProblem \<or> e = UnboundedProblem)) \<or>
         (\<exists>t'. pivot b t = (Inr (), t') \<and> tableau_inv nc t' \<and> same_frame t t' \<and>
               state t' = state t \<and> pivot_idx t' \<noteq> None)"
proof (cases "entering_var b t")
  case (Inl x)
  then show ?thesis using entering_var_signal [OF Inl] by (auto simp: pivot_def)
next
  case ev: (Inr e)
  let ?m = "fst (shape t)"
  have m: "0 < ?m" and nc: "0 < nc" and rc: "rect (tab t) (Suc ?m) nc"
    and complete: "- 1 \<notin> set (basis t)"
    using inv by (simp_all add: tableau_inv_def)
  have len: "length (tab t) = Suc ?m" using rc by (simp add: rect_def)
  have e: "e < nc" using entering_var_range [OF ev] length_cost_row [OF rc] by simp
  from departing_var_range [OF len m, of b e] obtain d where
    d: "d < ?m" "departing_var b t e = Inr d" by blast
  show ?thesis
  proof (cases "tl (tab t) ! d ! e \<le> 0")
    case True
    then show ?thesis using ev d by (simp add: pivot_def)
  next
    case False
    let ?t1 = "t\<lparr>pivot_idx := Some (Suc d, e)\<rparr>"
    let ?t' = "snd (pivot_around (Suc d) e ?t1)"
    have piv: "tab ?t1 ! Suc d ! e \<noteq> 0" using False d(1) len by (simp add: nth_tl)
    have rc1: "rect (tab ?t1) (Suc ?m) nc" using rc by simp
    have r: "Suc d < Suc ?m" using d(1) by simp
    note res = pivot_around_result [OF rc1 r e]
    have eq: "pivot b t = (Inr (), ?t')"
      using ev d False res(1) by (simp add: pivot_def prod_eq_iff)
    have fields: "shape ?t' = shape t" "obj_func ?t' = obj_func t"
      "artificial_vars ?t' = artificial_vars t" "state ?t' = state t"
      "pivot_idx ?t' = Some (Suc d, e)"
      by (subst res(2), simp)+
    have "\<forall>i < ?m. \<exists>j < nc. columns (tab ?t') ! j = unit_vec (Suc ?m) (Suc i)"
    proof (intro allI impI)
      fix i assume i: "i < ?m"
      show "\<exists>j < nc. columns (tab ?t') ! j = unit_vec (Suc ?m) (Suc i)"
      proof (cases "i = d")
        case True
        then show ?thesis
          using pivot_around_entering_column [OF rc1 r e piv] e by blast
      next
        case False
        obtain j where j: "j < nc" "columns (tab t) ! j = unit_vec (Suc ?m) (Suc i)"
          using complete i basis_complete_iff [OF rc refl] by blast
        have "columns (tab ?t') ! j = unit_vec (Suc ?m) (Suc i)"
          using pivot_around_other_columns [OF rc1 r e j(1), of "Suc i"] False j(2) by simp
        then show ?thesis using j(1) by blast
      qed
    qed
    then have "- 1 \<notin> set (basis ?t')"
      using basis_complete_iff [of ?t' ?m nc] res(3) fields(1) by simp
    then have "tableau_inv nc ?t'"
      using m nc res(3) fields(1) by (simp add: tableau_inv_def)
    moreover have "same_frame t ?t'" using fields by (simp add: same_frame_def)
    ultimately show ?thesis using eq fields by blast
  qed
qed

lemma same_frame_refl: "same_frame t t"
  by (simp add: same_frame_def)

lemma same_frame_trans: "same_frame t t' \<Longrightarrow> same_frame t' t'' \<Longrightarrow> same_frame t t''"
  by (simp add: same_frame_def)

lemma pivot_loop_inv:
  assumes "tableau_inv nc t"
  shows "\<exists>r t' evs. pivot_loop k it b (t, lg) = (r, t', lg @ evs) \<and>
           tableau_inv nc t' \<and> same_frame t t' \<and> length evs \<le> k \<and>
           TwoPhase \<notin> set evs \<and> Cycling \<notin> set evs \<and>
           (r = Inr () \<or> r = Inl ReachedOptimality \<or> r = Inl InfeasibleProblem \<or>
            r = Inl UnboundedProblem)"
  using assms
proof (induction k arbitrary: t lg it)
  case 0
  then show ?case using same_frame_refl by (intro exI[of _ "Inr ()"] exI[of _ t] exI[of _ "[]"]) simp
next
  case (Suc k)
  from pivot_cases [OF Suc.prems, of b] show ?case
  proof
    assume "\<exists>e. pivot b t = (Inl e, t) \<and>
              (e = ReachedOptimality \<or> e = InfeasibleProblem \<or> e = UnboundedProblem)"
    then obtain e where e: "pivot b t = (Inl e, t)"
      "e = ReachedOptimality \<or> e = InfeasibleProblem \<or> e = UnboundedProblem" by blast
    have "pivot_loop (Suc k) it b (t, lg) = (Inl e, t, lg @ [])" using e(1) by simp
    then show ?thesis using Suc.prems e(2) same_frame_refl
      by (intro exI[of _ "Inl e"] exI[of _ t] exI[of _ "[]"]) auto
  next
    assume "\<exists>t'. pivot b t = (Inr (), t') \<and> tableau_inv nc t' \<and> same_frame t t' \<and>
               state t' = state t \<and> pivot_idx t' \<noteq> None"
    then obtain t1 r c where t1: "pivot b t = (Inr (), t1)" "tableau_inv nc t1"
      "same_frame t t1" "pivot_idx t1 = Some (r, c)" by fastforce
    let ?ev = "Pivoted (Suc it) (r - 1) c"
    have step: "pivot_loop (Suc k) it b (t, lg) = pivot_loop k (Suc it) b (t1, lg @ [?ev])"
      using t1(1,4) by simp
    from Suc.IH [OF t1(2), of "Suc it" "lg @ [?ev]"] obtain res t' evs where
      ih: "pivot_loop k (Suc it) b (t1, lg @ [?ev]) = (res, t', (lg @ [?ev]) @ evs)"
        "tableau_inv nc t'" "same_frame t1 t'" "length evs \<le> k"
        "TwoPhase \<notin> set evs" "Cycling \<notin> set evs"
        "res = Inr () \<or> res = Inl ReachedOptimality \<or> res = Inl InfeasibleProblem \<or>
         res = Inl UnboundedProblem" by blast
    have "pivot_loop (Suc k) it b (t, lg) = (res, t', lg @ (?ev # evs))"
      using step ih(1) by simp
    moreover have "same_frame t t'" using t1(3) ih(3) by (rule same_frame_trans)
    moreover have "length (?ev # evs) \<le> Suc k" using ih(4) by simp
    moreover have "TwoPhase \<notin> set (?ev # evs)" "Cycling \<notin> set (?ev # evs)"
      using ih(5,6) by simp_all
    ultimately show ?thesis using ih(2,7) by blast
  qed
qed

lemma length_solution [simp]: "length (solution t) = length (tab t) - 1"
  by (simp add: solution_def)

lemma basis_of_inv:
  assumes "tableau_inv nc t"
  shows "basis t \<noteq> []" "distinct (basis t)" "\<forall>b \<in> set (basis t). 0 \<le> b"
    "length (solution t) = length (basis t)"
proof -
  let ?m = "fst (shape t)"
  have m: "0 < ?m" and rc: "rect (tab t) (Suc ?m) nc" and complete: "- 1 \<notin> set (basis t)"
    using assms by (simp_all add: tableau_inv_def)
  show "basis t \<noteq> []" using m by (metis length_basis length_greater_0_conv)
  show "distinct (basis t)"
  proof (subst distinct_conv_nth, intro allI impI)
    fix i j assume ij: "i < length (basis t)" "j < length (basis t)" "i \<noteq> j"
    show "basis t ! i \<noteq> basis t ! j"
    proof
      assume eq: "basis t ! i = basis t ! j"
      have "basis t ! i \<noteq> - 1" using complete ij(1) by (metis nth_mem)
      then have "i = j" using basis_distinct [of i t j] ij eq by simp
      then show False using ij(3) by simp
    qed
  qed
  show "\<forall>b \<in> set (basis t). 0 \<le> b"
  proof
    fix b assume b: "b \<in> set (basis t)"
    then obtain i where i: "i < ?m" "basis t ! i = b" by (metis in_set_conv_nth length_basis)
    have "- 1 \<le> b" using i basis_row_ge by (metis basis_nth)
    moreover have "b \<noteq> - 1" using complete b by auto
    ultimately show "0 \<le> b" by simp
  qed
  show "length (solution t) = length (basis t)" using rc by (simp add: rect_def)
qed

subsection \<open>Leaving the solver\<close>

lemma Solution_init_state:
  assumes "tableau_inv nc t" "state t = Some st"
  shows "\<exists>sol. Solution_init (state t) (obj_value t) (basis t) (solution t) = Inr sol \<and>
               classifies sol t"
proof (cases st)
  case Optimal
  note bas = basis_of_inv [OF assms(1)]
  from Solution_init_optimal [OF bas, of "obj_value t"] obtain xs where
    xs: "Solution_init (Some Optimal) (obj_value t) (basis t) (solution t) =
           Inr \<lparr>sol_state = Optimal, sol_obj_value = Value (obj_value t),
                sol_solution = Some xs\<rparr>"
      "int (length xs) = Max (set (basis t)) + 1" by blast
  have "Max (set (basis t)) \<in> set (basis t)" using bas(1) by (intro Min_in Max_in) simp_all
  then have "0 \<le> Max (set (basis t))" using bas(3) by blast
  then have "xs \<noteq> []" using xs(2) by auto
  then show ?thesis using xs(1) assms(2) Optimal by (simp add: classifies_def)
next
  case Unbounded
  then show ?thesis using assms(2) by (simp add: Solution_init_def classifies_def)
next
  case Infeasible
  then show ?thesis using assms(2) by (simp add: Solution_init_def classifies_def)
qed

lemma tableau_inv_state: "tableau_inv nc (t\<lparr>state := s\<rparr>) = tableau_inv nc t"
  by (simp add: tableau_inv_def basis_def)

lemma leave_with_signal:
  assumes "tableau_inv nc t"
    and "e = ReachedOptimality \<or> e = InfeasibleProblem \<or> e = UnboundedProblem"
  shows "\<exists>sol t'. leave_with e (t, lg) = (Inr sol, t', lg) \<and> tableau_inv nc t' \<and>
           same_frame t t' \<and> classifies sol t'"
proof -
  obtain st where st: "exit_tableau e t = (True, t\<lparr>state := Some st\<rparr>)"
    using assms(2) by (auto simp: exit_tableau_def)
  let ?t' = "t\<lparr>state := Some st\<rparr>"
  have inv': "tableau_inv nc ?t'" using assms(1) by (simp add: tableau_inv_state)
  from Solution_init_state [OF inv', of st] obtain sol where
    sol: "Solution_init (state ?t') (obj_value ?t') (basis ?t') (solution ?t') = Inr sol"
      "classifies sol ?t'" by auto
  have "leave_with e (t, lg) = (Inr sol, ?t', lg)" using st sol(1) by (simp add: leave_with_def)
  moreover have "same_frame t ?t'" by (simp add: same_frame_def)
  ultimately show ?thesis using inv' sol(2) by blast
qed

lemma leave_with_error:
  assumes "e \<noteq> ReachedOptimality" "e \<noteq> InfeasibleProblem" "e \<noteq> UnboundedProblem"
  shows "leave_with e w = (Inl e, w)"
  using assms by (cases e) (simp_all add: leave_with_def exit_tableau_def)

lemma phase_log_pivots:
  assumes "TwoPhase \<notin> set evs" "Cycling \<notin> set evs" "length evs \<le> nat M"
  shows "phase_log M b evs"
proof -
  have "filter (\<lambda>e. e = Cycling) evs = []" using assms(2) by (auto simp: filter_empty_conv)
  moreover have "length (takeWhile (\<lambda>e. e \<noteq> Cycling) evs) \<le> nat M"
    using assms(3) length_takeWhile_le [of "\<lambda>e. e \<noteq> Cycling" evs] by simp
  ultimately show ?thesis using assms(1,2) by (simp add: phase_log_def)
qed

lemma phase_log_switch:
  assumes "TwoPhase \<notin> set evs" "Cycling \<notin> set evs" "length evs \<le> nat M"
    and "phase_log M' True evs2"
  shows "phase_log M False (evs @ Cycling # evs2)"
proof -
  have c2: "Cycling \<notin> set evs2" "TwoPhase \<notin> set evs2" using assms(4) by (simp_all add: phase_log_def)
  have "filter (\<lambda>e. e = Cycling) evs = []" using assms(2) by (auto simp: filter_empty_conv)
  moreover have "filter (\<lambda>e. e = Cycling) evs2 = []" using c2(1) by (auto simp: filter_empty_conv)
  moreover have "takeWhile (\<lambda>e. e \<noteq> Cycling) (evs @ Cycling # evs2) = evs"
    using assms(2) by (subst takeWhile_append2) auto
  ultimately show ?thesis using assms(1,3) c2(2) by (simp add: phase_log_def)
qed

subsection \<open>Solving from a complete basis\<close>

lemma solve_complete_unfold:
  assumes "- 1 \<notin> set (basis t)"
  shows "solve M b (t, lg) =
     (case pivot_loop (nat M) 0 b (t, lg) of
        (Inl e, w3) \<Rightarrow> Some (leave_with e w3)
      | (Inr _, w3) \<Rightarrow>
          if \<not> b
          then Option.bind (solve 100 True (fst w3, snd w3 @ [Cycling]))
                 (\<lambda>(res, w4).
                    case res of
                      Inl e \<Rightarrow> Some (leave_with e w4)
                    | Inr sol \<Rightarrow> Some (Inr sol, w4))
          else Some (leave_with (UnsolvableError M) w3))"
  using assms by (subst solve.simps) simp

lemma solve_complete_blands:
  assumes "tableau_inv nc t"
  shows "\<exists>res t' evs. solve M True (t, lg) = Some (res, t', lg @ evs) \<and>
           tableau_inv nc t' \<and> same_frame t t' \<and>
           phase_log M True evs \<and> phase_result M True res t'"
proof -
  have complete: "- 1 \<notin> set (basis t)" using assms by (simp add: tableau_inv_def)
  from pivot_loop_inv [OF assms, of "nat M" 0 True lg] obtain r t1 evs where
    lp: "pivot_loop (nat M) 0 True (t, lg) = (r, t1, lg @ evs)" "tableau_inv nc t1"
      "same_frame t t1" "length evs \<le> nat M" "TwoPhase \<notin> set evs" "Cycling \<notin> set evs"
      "r = Inr () \<or> r = Inl ReachedOptimality \<or> r = Inl InfeasibleProblem \<or>
       r = Inl UnboundedProblem" by blast
  have plog: "phase_log M True evs" using lp(5,6,4) by (rule phase_log_pivots)
  show ?thesis
  proof (cases r)
    case (Inr u)
    have "solve M True (t, lg) = Some (leave_with (UnsolvableError M) (t1, lg @ evs))"
      using lp(1) Inr by (simp add: solve_complete_unfold [OF complete])
    then have "solve M True (t, lg) = Some (Inl (UnsolvableError M), t1, lg @ evs)"
      by (simp add: leave_with_error)
    moreover have "phase_result M True (Inl (UnsolvableError M)) t1"
      by (simp add: phase_result_def)
    ultimately show ?thesis using lp(2,3) plog by blast
  next
    case (Inl e)
    then have sig: "e = ReachedOptimality \<or> e = InfeasibleProblem \<or> e = UnboundedProblem"
      using lp(7) by auto
    from leave_with_signal [OF lp(2) sig, of "lg @ evs"] obtain sol t' where
      lw: "leave_with e (t1, lg @ evs) = (Inr sol, t', lg @ evs)" "tableau_inv nc t'"
        "same_frame t1 t'" "classifies sol t'" by blast
    have "solve M True (t, lg) = Some (Inr sol, t', lg @ evs)"
      using lp(1) Inl lw(1) by (simp add: solve_complete_unfold [OF complete])
    moreover have "same_frame t t'" using lp(3) lw(3) by (rule same_frame_trans)
    moreover have "phase_result M True (Inr sol) t'" using lw(4) by (simp add: phase_result_def)
    ultimately show ?thesis using lw(2) plog by blast
  qed
qed

lemma solve_complete_standard:
  assumes "tableau_inv nc t"
  shows "\<exists>res t' evs. solve M False (t, lg) = Some (res, t', lg @ evs) \<and>
           tableau_inv nc t' \<and> same_frame t t' \<and>
           phase_log M False evs \<and> phase_result M False res t'"
proof -
  have complete: "- 1 \<notin> set (basis t)" using assms by (simp add: tableau_inv_def)
  from pivot_loop_inv [OF assms, of "nat M" 0 False lg] obtain r t1 evs where
    lp: "pivot_loop (nat M) 0 False (t, lg) = (r, t1, lg @ evs)" "tableau_inv nc t1"
      "same_frame t t1" "length evs \<le> nat M" "TwoPhase \<notin> set evs" "Cycling \<notin> set evs"
      "r = Inr () \<or> r = Inl ReachedOptimality \<or> r = Inl InfeasibleProblem \<or>
       r = Inl UnboundedProblem" by blast
  show ?thesis
  proof (cases r)
    case (Inl e)
    then have sig: "e = ReachedOptimality \<or> e = InfeasibleProblem \<or> e = UnboundedProblem"
      using lp(7) by auto
    from leave_with_signal [OF lp(2) sig, of "lg @ evs"] obtain sol t' where
      lw: "leave_with e (t1, lg @ evs) = (Inr sol, t', lg @ evs)" "tableau_inv nc t'"
        "same_frame t1 t'" "classifies sol t'" by blast
    have "solve M False (t, lg) = Some (Inr sol, t', lg @ evs)"
      using lp(1) Inl lw(1) by (simp add: solve_complete_unfold [OF complete])
    moreover have "same_frame t t'" using lp(3) lw(3) by (rule same_frame_trans)
    moreover have "phase_result M False (Inr sol) t'" using lw(4) by (simp add: phase_result_def)
    moreover have "phase_log M False evs" using lp(5,6,4) by (rule phase_log_pivots)
    ultimately show ?thesis using lw(2) by blast
  next
    case (Inr u)
    from solve_complete_blands [OF lp(2), of 100 "(lg @ evs) @ [Cycling]"] obtain res t' evs2
      where rt: "solve 100 True (t1, (lg @ evs) @ [Cycling]) =
                   Some (res, t', ((lg @ evs) @ [Cycling]) @ evs2)"
        "tableau_inv nc t'" "same_frame t1 t'" "phase_log 100 True evs2"
        "phase_result 100 True res t'" by blast
    let ?evs = "evs @ Cycling # evs2"
    have res: "phase_result M False res t'"
      using rt(5) by (cases res) (auto simp: phase_result_def)
    have pass: "(case res of Inl e \<Rightarrow> Some (leave_with e (t', lg @ ?evs))
                  | Inr sol \<Rightarrow> Some (Inr sol, t', lg @ ?evs)) = Some (res, t', lg @ ?evs)"
      using rt(5) by (cases res) (auto simp: phase_result_def leave_with_error)
    have "solve M False (t, lg) = Some (res, t', lg @ ?evs)"
      using lp(1) Inr rt(1) pass by (simp add: solve_complete_unfold [OF complete])
    moreover have "same_frame t t'" using lp(3) rt(3) by (rule same_frame_trans)
    moreover have "phase_log M False ?evs" using lp(5,6,4) rt(4) by (rule phase_log_switch)
    ultimately show ?thesis using rt(2) res by blast
  qed
qed

lemma solve_complete:
  assumes "tableau_inv nc t"
  shows "\<exists>res t' evs. solve M b (t, lg) = Some (res, t', lg @ evs) \<and>
           tableau_inv nc t' \<and> same_frame t t' \<and>
           phase_log M b evs \<and> phase_result M b res t'"
  using solve_complete_blands [OF assms, of M lg] solve_complete_standard [OF assms, of M lg]
  by (cases b) simp_all

subsection \<open>Artificial variables\<close>

lemma tl_unit_vec:
  "tl (unit_vec (Suc m) (Suc i0)) = map (\<lambda>i. if i = i0 then 1 else 0) [0..<m]"
proof -
  have "[0..<Suc m] = 0 # map Suc [0..<m]" by (simp add: upt_conv_Cons map_Suc_upt del: upt_Suc)
  then show ?thesis by (simp add: unit_vec_def del: upt_Suc)
qed

lemma dot_delta:
  assumes "length xs = m" "i0 < m"
  shows "dot xs (map (\<lambda>i. if i = i0 then 1 else 0) [0..<m]) = xs ! i0"
proof -
  let ?ys = "map (\<lambda>i. if i = i0 then (1::rat) else 0) [0..<m]"
  have "map2 (*) xs ?ys = map (\<lambda>i. xs ! i * (if i = i0 then 1 else 0)) [0..<m]"
    using assms(1) by (intro nth_equalityI) simp_all
  then have "dot xs ?ys = (\<Sum>i \<in> {0..<m}. xs ! i * (if i = i0 then 1 else 0))"
    by (simp add: dot_def interv_sum_list_conv_sum_set_nat)
  also have "\<dots> = (\<Sum>i \<in> {0..<m}. if i = i0 then xs ! i else 0)"
    by (intro sum.cong) auto
  also have "\<dots> = xs ! i0" using assms(2) by (simp add: sum.delta')
  finally show ?thesis .
qed

lemma dot_tl_unit_vec:
  "length xs = m \<Longrightarrow> i0 < m \<Longrightarrow> dot xs (tl (unit_vec (Suc m) (Suc i0))) = xs ! i0"
  by (simp add: tl_unit_vec dot_delta)

lemma identity_shifted_nth:
  "a < m \<Longrightarrow> i < Suc m \<Longrightarrow> identity_shifted m ! a ! i = (if i = Suc a then 1 else 0)"
  by (simp add: identity_shifted_def unit_vec_def del: upt_Suc)

lemma unit_column_entries:
  assumes "rect M (Suc m) nc" "j < nc" "columns M ! j = unit_vec (Suc m) (Suc i0)"
  shows "\<And>i. i < Suc m \<Longrightarrow> M ! i ! j = (if i = Suc i0 then 1 else 0)"
  using column_eq_unit_vec [OF assms(1) _ assms(2), of "Suc i0"] assms(3) by simp

lemma add_artificial_variables_inv:
  assumes m: "0 < fst (shape t)" and nc: "0 < nc"
    and rc: "rect (tab t) (Suc (fst (shape t))) nc"
  shows "\<exists>k. tableau_inv (nc + k) (add_artificial_variables t) \<and>
             shape (add_artificial_variables t) = shape t \<and>
             obj_func (add_artificial_variables t) = obj_func t \<and>
             artificial_vars (add_artificial_variables t) =
               Some [snd (shape t) ..< snd (shape t) + k]"
proof -
  let ?m = "fst (shape t)"
  let ?M = "tab t"
  let ?b = "basis t"
  let ?nbc = "map (\<lambda>v. if v = - 1 then - 1 else (0::rat)) ?b"
  let ?T1 = "?M[0 := map (\<lambda>r. dot ?nbc (tl r)) (columns ?M)]"
  let ?id = "identity_shifted ?m"
  let ?args = "filter (\<lambda>i. ?b ! i = - 1) [0..<?m]"
  let ?k = "length ?args"
  let ?T2 = "map (\<lambda>(i, row). butlast row @ map (\<lambda>a. ?id ! a ! i) ?args @ [last row])
                 (enumerate 0 ?T1)"
  let ?t1 = "add_artificial_variables t"
  have eq: "?t1 = t\<lparr>tab := ?T2,
                   artificial_vars := Some [snd (shape t) ..< snd (shape t) + ?k]\<rparr>"
    by (simp add: add_artificial_variables_def Let_def)
  have len: "length ?M = Suc ?m" using rc by (simp add: rect_def)
  have rowlen: "\<And>i. i < Suc ?m \<Longrightarrow> length (?M ! i) = nc" using rc by (rule rect_nth)
  have lcols: "length (columns ?M) = nc" using rc by (simp add: length_columns)
  have T1len: "length (?T1 ! i) = nc" if "i < Suc ?m" for i
    using that rowlen lcols len by (cases "i = 0") simp_all
  have T1entry: "?T1 ! i ! j = (if i = 0 then dot ?nbc (tl (columns ?M ! j)) else ?M ! i ! j)"
    if "i < Suc ?m" "j < nc" for i j
    using that len lcols by (cases "i = 0") simp_all
  have T2i: "?T2 ! i = butlast (?T1 ! i) @ map (\<lambda>a. ?id ! a ! i) ?args @ [last (?T1 ! i)]"
    if "i < Suc ?m" for i
    using that len by (simp add: nth_enumerate_eq)
  have T2len: "length (?T2 ! i) = nc + ?k" if "i < Suc ?m" for i
    using that T1len [OF that] nc by (simp add: T2i)
  have rc2: "rect ?T2 (Suc ?m) (nc + ?k)"
    using len T2len by (intro rectI) simp_all
  have low: "?T2 ! i ! j = ?T1 ! i ! j" if "i < Suc ?m" "j < nc - 1" for i j
    using that T1len [OF that(1)] by (simp add: T2i nth_append nth_butlast)
  have args_lt: "?args ! q < ?m" if "q < ?k" for q
  proof -
    have "?args ! q \<in> set ?args" using that by (rule nth_mem)
    then have "?args ! q \<in> {0..<?m}" by (metis filter_is_subset subsetD set_upt)
    then show ?thesis by simp
  qed
  have art: "?T2 ! i ! (nc - 1 + q) = (if i = Suc (?args ! q) then 1 else 0)"
    if "i < Suc ?m" "q < ?k" for i q
    using that T1len [OF that(1)] args_lt [OF that(2)]
    by (simp add: T2i nth_append identity_shifted_nth)
  have rhs: "?T2 ! i ! (nc - 1 + ?k) = ?T1 ! i ! (nc - 1)" if "i < Suc ?m" for i
  proof -
    have ne: "?T1 ! i \<noteq> []" using T1len [OF that] nc by auto
    have "?T2 ! i ! (nc - 1 + ?k) = last (?T1 ! i)"
      using T1len [OF that] by (simp add: T2i [OF that] nth_append)
    also have "\<dots> = ?T1 ! i ! (nc - 1)" using ne T1len [OF that] by (simp add: last_conv_nth)
    finally show ?thesis .
  qed
  have embed: "\<exists>j' < nc + ?k. \<forall>i < Suc ?m. ?T2 ! i ! j' = ?T1 ! i ! j" if "j < nc" for j
  proof (cases "j < nc - 1")
    case True
    then show ?thesis using low by (intro exI[of _ j]) simp
  next
    case False
    then have "j = nc - 1" using that by simp
    then show ?thesis using rhs nc by (intro exI[of _ "nc - 1 + ?k"]) simp
  qed
  have "\<forall>i0 < ?m. \<exists>j < nc + ?k. columns ?T2 ! j = unit_vec (Suc ?m) (Suc i0)"
  proof (intro allI impI)
    fix i0 assume i0: "i0 < ?m"
    show "\<exists>j < nc + ?k. columns ?T2 ! j = unit_vec (Suc ?m) (Suc i0)"
    proof (cases "?b ! i0 = - 1")
      case True
      then have "i0 \<in> set ?args" using i0 by simp
      then obtain q where q: "q < ?k" "?args ! q = i0" by (metis in_set_conv_nth)
      have j: "nc - 1 + q < nc + ?k" using q(1) nc by simp
      have "columns ?T2 ! (nc - 1 + q) = unit_vec (Suc ?m) (Suc i0)"
        unfolding column_eq_unit_vec [OF rc2 zero_less_Suc j] using art q by simp
      then show ?thesis using j by blast
    next
      case False
      then have "basis_row (columns ?M) (unit_vec (Suc ?m) (Suc i0)) \<noteq> - 1"
        using i0 by (simp add: basis_nth)
      from basis_row_assigned [OF this] obtain j where
        j: "j < nc" "columns ?M ! j = unit_vec (Suc ?m) (Suc i0)"
        using lcols by auto
      note unit = unit_column_entries [OF rc j]
      have zero: "dot ?nbc (tl (columns ?M ! j)) = 0"
        using False i0 by (simp add: j(2) dot_tl_unit_vec)
      from embed [OF j(1)] obtain j' where
        j': "j' < nc + ?k" "\<forall>i < Suc ?m. ?T2 ! i ! j' = ?T1 ! i ! j" by blast
      have "columns ?T2 ! j' = unit_vec (Suc ?m) (Suc i0)"
        unfolding column_eq_unit_vec [OF rc2 zero_less_Suc j'(1)]
        using j'(2) j(1) unit zero by (simp add: T1entry)
      then show ?thesis using j'(1) by blast
    qed
  qed
  then have complete: "- 1 \<notin> set (basis ?t1)"
    using basis_complete_iff [of ?t1 ?m "nc + ?k"] rc2 by (simp add: eq)
  have "tableau_inv (nc + ?k) ?t1"
    using m nc rc2 complete unfolding tableau_inv_def by (simp add: eq)
  then show ?thesis by (intro exI[of _ ?k]) (simp add: eq)
qed

lemma collect_Inr:
  "collect f xs = Inr ys \<Longrightarrow>
     length ys = length xs \<and> (\<forall>i < length xs. f (xs ! i) = Inr (ys ! i))"
proof (induction xs arbitrary: ys)
  case Nil
  then show ?case by simp
next
  case (Cons x xs)
  from Cons.prems obtain y zs where y: "f x = Inr y" "collect f xs = Inr zs" "ys = y # zs"
    by (auto split: sum.splits)
  from Cons.IH [OF y(2)] show ?case using y(1,3) by (auto simp: nth_Cons')
qed

lemma collect_Inl: "collect f xs = Inl e \<Longrightarrow> \<exists>x \<in> set xs. f x = Inl e"
  by (induction xs) (auto split: sum.splits)

lemma py_getitem_Inl: "py_getitem xs i = Inl e \<Longrightarrow> e = IndexError"
  by (auto simp: py_getitem_def Let_def split: if_splits)

lemma py_getitem_Inr:
  "py_getitem xs i = Inr v \<Longrightarrow> 0 \<le> i \<Longrightarrow> nat i < length xs \<and> v = xs ! nat i"
  by (auto simp: py_getitem_def Let_def split: if_splits)

lemma keep_columns:
  "filter (\<lambda>j. j \<notin> set [n..<n + k]) [0..<Suc (n + k)] = [0..<n] @ [n + k]"
proof -
  have "[0..<n + k] = [0..<n] @ [n..<n + k]"
    using upt_add_eq_append [of 0 n k] by simp
  then have "[0..<Suc (n + k)] = [0..<n] @ [n..<n + k] @ [n + k]" by simp
  then have "filter (\<lambda>j. j \<notin> set [n..<n + k]) [0..<Suc (n + k)] =
               filter (\<lambda>j. j \<notin> set [n..<n + k]) [0..<n] @
               filter (\<lambda>j. j \<notin> set [n..<n + k]) [n..<n + k] @
               filter (\<lambda>j. j \<notin> set [n..<n + k]) [n + k]"
    by (simp only: filter_append)
  moreover have "filter (\<lambda>j. j \<notin> set [n..<n + k]) [0..<n] = [0..<n]"
    by (rule filter_True) simp
  moreover have "filter (\<lambda>j. j \<notin> set [n..<n + k]) [n..<n + k] = []"
    by (rule filter_False) simp
  ultimately show ?thesis by simp
qed

lemma drop_artificial_variables_cases:
  assumes inv: "tableau_inv (Suc (n + k)) t" and sh: "shape t = (m, n)"
    and av: "artificial_vars t = Some [n..<n + k]" and lo: "length (obj_func t) = n"
  shows "(\<exists>t1. drop_artificial_variables t = (Inl NameError, t1)) \<or>
         (\<exists>t1. drop_artificial_variables t = (Inl IndexError, t1)) \<or>
         (\<exists>t3. drop_artificial_variables t = (Inr (), t3) \<and> tableau_inv (Suc n) t3 \<and>
               same_frame t t3)"
proof (cases "\<exists>var \<in> set (basis t). var \<in> int ` set [n..<n + k]")
  case True
  then show ?thesis using av by (simp add: drop_artificial_variables_def)
next
  case noart: False
  let ?M = "tab t"
  let ?nc = "Suc (n + k)"
  define T1 where "T1 = map (\<lambda>row. map (\<lambda>j. row ! j)
                           (filter (\<lambda>j. j \<notin> set [n..<n + k]) [0..<length row])) ?M"
  let ?t1 = "t\<lparr>tab := T1\<rparr>"
  have m: "0 < m" and rc: "rect ?M (Suc m) ?nc" and complete: "- 1 \<notin> set (basis t)"
    using inv sh by (simp_all add: tableau_inv_def)
  have fm: "fst (shape t) = m" using sh by simp
  have len: "length ?M = Suc m" using rc by (simp add: rect_def)
  have rowlen: "\<And>i. i < Suc m \<Longrightarrow> length (?M ! i) = ?nc" using rc by (rule rect_nth)
  have T1i: "T1 ! i = map (\<lambda>j. ?M ! i ! j) ([0..<n] @ [n + k])" if "i < Suc m" for i
  proof -
    have "i < length ?M" using that len by simp
    then have "T1 ! i = map (\<lambda>j. ?M ! i ! j)
                 (filter (\<lambda>j. j \<notin> set [n..<n + k]) [0..<length (?M ! i)])"
      unfolding T1_def by (simp only: nth_map)
    then show ?thesis by (simp only: rowlen [OF that] keep_columns)
  qed
  have T1entry: "T1 ! i ! j = ?M ! i ! (if j < n then j else n + k)"
    if "i < Suc m" "j < Suc n" for i j
    using that by (auto simp: T1i nth_append less_Suc_eq)
  have len1: "length T1 = Suc m" using len by (simp add: T1_def)
  have rc1: "rect T1 (Suc m) (Suc n)"
    using len1 by (intro rectI) (simp_all add: T1i)
  have lcols: "length (columns ?M) = ?nc" using rc by (simp add: length_columns)
  have unitcol1: "\<exists>j < Suc n. columns T1 ! j = unit_vec (Suc m) (Suc i0)" if i0: "i0 < m" for i0
  proof -
    let ?J = "basis t ! i0"
    have Jin: "?J \<in> set (basis t)" using i0 fm by (metis length_basis nth_mem)
    then have "?J \<noteq> - 1" using complete by auto
    then have ne: "basis_row (columns ?M) (unit_vec (Suc m) (Suc i0)) \<noteq> - 1"
      using i0 fm by (simp add: basis_nth)
    from basis_row_assigned [OF ne] have J: "0 \<le> ?J" "nat ?J < ?nc"
      "columns ?M ! nat ?J = unit_vec (Suc m) (Suc i0)"
      using i0 fm lcols by (simp_all add: basis_nth)
    have "?J \<notin> int ` set [n..<n + k]" using noart Jin by blast
    then have "nat ?J \<notin> set [n..<n + k]" using J(1) by (metis imageI int_nat_eq)
    then have range: "nat ?J < n \<or> nat ?J = n + k" using J(2) by auto
    note unit = unit_column_entries [OF rc J(2,3)]
    let ?j = "if nat ?J < n then nat ?J else n"
    have j: "?j < Suc n" by simp
    have "(if ?j < n then ?j else n + k) = nat ?J" using range by auto
    then have "\<forall>i < Suc m. T1 ! i ! ?j = (if i = Suc i0 then 1 else 0)"
      using unit j by (simp add: T1entry)
    then have "columns T1 ! ?j = unit_vec (Suc m) (Suc i0)"
      unfolding column_eq_unit_vec [OF rc1 zero_less_Suc j] .
    then show ?thesis using j by blast
  qed
  have sh1: "fst (shape ?t1) = m" using fm by simp
  have complete1: "- 1 \<notin> set (basis ?t1)"
    using basis_complete_iff [of ?t1 m "Suc n"] rc1 sh1 unitcol1 by simp
  have eq: "drop_artificial_variables t =
      (case collect (py_getitem (obj_func ?t1)) (basis ?t1) of
         Inl e \<Rightarrow> (Inl e, ?t1)
       | Inr costs \<Rightarrow>
           (Inr (), ?t1\<lparr>tab := T1[0 := map2 (\<lambda>c r. dot costs (tl r) - c)
                                         (obj_func ?t1 @ [0]) (columns T1)]\<rparr>))"
    unfolding drop_artificial_variables_def T1_def Let_def av option.case
    by (simp only: noart if_False)
  show ?thesis
  proof (cases "collect (py_getitem (obj_func ?t1)) (basis ?t1)")
    case (Inl e)
    from collect_Inl [OF Inl] have "e = IndexError" using py_getitem_Inl by blast
    then show ?thesis using eq Inl by simp
  next
    case (Inr costs)
    define T3 where
      "T3 = T1[0 := map2 (\<lambda>c r. dot costs (tl r) - c) (obj_func ?t1 @ [0]) (columns T1)]"
    let ?t3 = "?t1\<lparr>tab := T3\<rparr>"
    have res: "drop_artificial_variables t = (Inr (), ?t3)"
      unfolding eq Inr T3_def by (simp only: sum.case)
    from collect_Inr [OF Inr] have lc: "length costs = m"
      and cost: "\<forall>i < m. py_getitem (obj_func t) (basis ?t1 ! i) = Inr (costs ! i)"
      using sh1 by simp_all
    have lcols1: "length (columns T1) = Suc n" using rc1 by (simp add: length_columns)
    have row0len: "length (map2 (\<lambda>c r. dot costs (tl r) - c) (obj_func ?t1 @ [0]) (columns T1))
                     = Suc n"
      using lo lcols1 by simp
    have T3len: "length (T3 ! i) = Suc n" if "i < Suc m" for i
    proof (cases "i = 0")
      case True
      then show ?thesis using row0len len1 by (simp add: T3_def del: upt_Suc)
    next
      case False
      then show ?thesis using that rect_nth [OF rc1 that] by (simp add: T3_def)
    qed
    have len3: "length T3 = Suc m" using len1 by (simp add: T3_def)
    have rc3: "rect T3 (Suc m) (Suc n)" using len3 T3len by (intro rectI) simp_all
    have T3entry: "T3 ! i ! j =
        (if i = 0 then dot costs (tl (columns T1 ! j)) - (obj_func t @ [0]) ! j
         else T1 ! i ! j)" if "i < Suc m" "j < Suc n" for i j
    proof (cases "i = 0")
      case True
      have "T3 ! 0 ! j = map2 (\<lambda>c r. dot costs (tl r) - c) (obj_func ?t1 @ [0]) (columns T1) ! j"
        using len1 by (simp add: T3_def del: upt_Suc)
      also have "\<dots> = dot costs (tl (columns T1 ! j)) - (obj_func t @ [0]) ! j"
        using that(2) lo lcols1 by simp
      finally show ?thesis using True by simp
    next
      case False
      then show ?thesis by (simp add: T3_def)
    qed
    have "\<forall>i0 < m. \<exists>j < Suc n. columns T3 ! j = unit_vec (Suc m) (Suc i0)"
    proof (intro allI impI)
      fix i0 assume i0: "i0 < m"
      let ?J = "basis ?t1 ! i0"
      have Jin: "?J \<in> set (basis ?t1)" using i0 sh1 by (metis length_basis nth_mem)
      then have "?J \<noteq> - 1" using complete1 by auto
      then have ne: "basis_row (columns T1) (unit_vec (Suc m) (Suc i0)) \<noteq> - 1"
        using i0 sh1 basis_nth [of i0 ?t1] by simp
      from basis_row_assigned [OF ne] have J: "0 \<le> ?J"
        "columns T1 ! nat ?J = unit_vec (Suc m) (Suc i0)"
        using i0 sh1 basis_nth [of i0 ?t1] by simp_all
      from cost i0 have "py_getitem (obj_func t) ?J = Inr (costs ! i0)" by blast
      from py_getitem_Inr [OF this J(1)] have c: "nat ?J < n" "costs ! i0 = obj_func t ! nat ?J"
        using lo by simp_all
      have j: "nat ?J < Suc n" using c(1) by simp
      note unit = unit_column_entries [OF rc1 j J(2)]
      have "dot costs (tl (columns T1 ! nat ?J)) = costs ! i0"
        using lc i0 by (simp add: J(2) dot_tl_unit_vec)
      then have zero: "dot costs (tl (columns T1 ! nat ?J)) - (obj_func t @ [0]) ! nat ?J = 0"
        using c lo by (simp add: nth_append)
      have "\<forall>i < Suc m. T3 ! i ! nat ?J = (if i = Suc i0 then 1 else 0)"
        using unit zero j by (simp add: T3entry del: upt_Suc)
      then have "columns T3 ! nat ?J = unit_vec (Suc m) (Suc i0)"
        unfolding column_eq_unit_vec [OF rc3 zero_less_Suc j] .
      then show "\<exists>j < Suc n. columns T3 ! j = unit_vec (Suc m) (Suc i0)" using j by blast
    qed
    then have "- 1 \<notin> set (basis ?t3)"
      using basis_complete_iff [of ?t3 m "Suc n"] rc3 fm by simp
    then have "tableau_inv (Suc n) ?t3" using m rc3 fm by (simp add: tableau_inv_def)
    moreover have "same_frame t ?t3" by (simp add: same_frame_def)
    ultimately show ?thesis using res by blast
  qed
qed

subsection \<open>Solving with the two-phase method\<close>

lemma solve_incomplete_unfold:
  assumes "- 1 \<in> set (basis t)"
  shows "solve M b (t, lg) =
     Option.bind
       (Option.bind
            (solve M False (add_artificial_variables t, lg @ [TwoPhase]))
            (\<lambda>(res, w1).
               case res of
                 Inl e \<Rightarrow> Some (Return (leave_with e w1))
               | Inr sol \<Rightarrow>
                   if sol_solution sol = None \<or> sol_solution sol = Some []
                   then Some (Return (Inr sol, w1))
                   else (case drop_artificial_variables (fst w1) of
                           (Inl e, t2) \<Rightarrow> Some (Return (leave_with e (t2, snd w1)))
                         | (Inr _, t2) \<Rightarrow> Some (Continue (t2, snd w1)))))
       (\<lambda>fl. case fl of
                Return r \<Rightarrow> Some r
              | Continue w2 \<Rightarrow>
                  (case pivot_loop (nat M) 0 b w2 of
                     (Inl e, w3) \<Rightarrow> Some (leave_with e w3)
                   | (Inr _, w3) \<Rightarrow>
                       if \<not> b
                       then Option.bind (solve 100 True (fst w3, snd w3 @ [Cycling]))
                              (\<lambda>(res, w4).
                                 case res of
                                   Inl e \<Rightarrow> Some (leave_with e w4)
                                 | Inr sol \<Rightarrow> Some (Inr sol, w4))
                       else Some (leave_with (UnsolvableError M) w3)))"
  using assms by (subst solve.simps) simp

lemma solve_incomplete:
  assumes m: "0 < m" and sh: "shape t = (m, n)" and rc: "rect (tab t) (Suc m) (Suc n)"
    and lo: "length (obj_func t) = n" and inc: "- 1 \<in> set (basis t)"
  shows "\<exists>res t' res1 t1 evs1 evs2.
           solve M False (add_artificial_variables t, lg @ [TwoPhase]) =
             Some (res1, t1, lg @ TwoPhase # evs1) \<and>
           solve M b (t, lg) = Some (res, t', lg @ TwoPhase # evs1 @ evs2) \<and>
           phase_log M False evs1 \<and> phase_result M False res1 t1 \<and> TwoPhase \<notin> set evs2 \<and>
           (case res1 of
              Inl e \<Rightarrow> res = Inl e \<and> evs2 = []
            | Inr sol1 \<Rightarrow>
                (sol_state sol1 \<noteq> Optimal \<longrightarrow> res = Inr sol1 \<and> evs2 = []) \<and>
                (sol_state sol1 = Optimal \<and> fst (drop_artificial_variables t1) = Inr () \<longrightarrow>
                   phase_log M b evs2 \<and> phase_result M b res t'))"
proof -
  let ?t1 = "add_artificial_variables t"
  let ?G = "\<lambda>fl. case fl of
                Return r \<Rightarrow> Some r
              | Continue w2 \<Rightarrow>
                  (case pivot_loop (nat M) 0 b w2 of
                     (Inl e, w3) \<Rightarrow> Some (leave_with e w3)
                   | (Inr _, w3) \<Rightarrow>
                       if \<not> b
                       then Option.bind (solve 100 True (fst w3, snd w3 @ [Cycling]))
                              (\<lambda>(res, w4).
                                 case res of
                                   Inl e \<Rightarrow> Some (leave_with e w4)
                                 | Inr sol \<Rightarrow> Some (Inr sol, w4))
                       else Some (leave_with (UnsolvableError M) w3))"
  from add_artificial_variables_inv [of t "Suc n"] m sh rc obtain k where
    a: "tableau_inv (Suc (n + k)) ?t1" "shape ?t1 = (m, n)" "obj_func ?t1 = obj_func t"
       "artificial_vars ?t1 = Some [n..<n + k]" by auto
  from solve_complete_standard [OF a(1), of M "lg @ [TwoPhase]"] obtain res1 t1 evs1 where
    p1: "solve M False (?t1, lg @ [TwoPhase]) = Some (res1, t1, (lg @ [TwoPhase]) @ evs1)"
      "tableau_inv (Suc (n + k)) t1" "same_frame ?t1 t1" "phase_log M False evs1"
      "phase_result M False res1 t1" by blast
  have fr: "shape t1 = (m, n)" "obj_func t1 = obj_func t" "artificial_vars t1 = Some [n..<n + k]"
    using p1(3) a(2,3,4) by (simp_all add: same_frame_def)
  let ?lg1 = "(lg @ [TwoPhase]) @ evs1"
  have p1': "solve M False (?t1, lg @ [TwoPhase]) = Some (res1, t1, lg @ TwoPhase # evs1)"
    using p1(1) by simp
  note unf = solve_incomplete_unfold [OF inc, of M b lg]
  show ?thesis
  proof (cases res1)
    case (Inl e)
    then obtain k' where e: "e = UnsolvableError k'" using p1(5) by (auto simp: phase_result_def)
    have "solve M b (t, lg) = Some (Inl e, t1, ?lg1)"
      unfolding unf p1(1) using Inl e by (simp add: leave_with_error)
    then have "solve M b (t, lg) = Some (Inl e, t1, lg @ TwoPhase # evs1 @ [])" by simp
    then show ?thesis using p1' p1(4,5) Inl
      by (intro exI[of _ "Inl e"] exI[of _ t1] exI[of _ res1] exI[of _ t1] exI[of _ evs1]
            exI[of _ "[]"]) simp
  next
    case (Inr sol1)
    then have cls: "classifies sol1 t1" using p1(5) by (simp add: phase_result_def)
    show ?thesis
    proof (cases "sol_state sol1 = Optimal")
      case False
      then have none: "sol_solution sol1 = None" using cls by (simp add: classifies_def)
      have "solve M b (t, lg) = Some (Inr sol1, t1, ?lg1)"
        unfolding unf p1(1) using Inr none by simp
      then have "solve M b (t, lg) = Some (Inr sol1, t1, lg @ TwoPhase # evs1 @ [])" by simp
      then show ?thesis using p1' p1(4,5) Inr False
        by (intro exI[of _ "Inr sol1"] exI[of _ t1] exI[of _ res1] exI[of _ t1] exI[of _ evs1]
              exI[of _ "[]"]) simp
    next
      case True
      then obtain xs where xs: "sol_solution sol1 = Some xs" "xs \<noteq> []"
        using cls by (auto simp: classifies_def)
      have step: "solve M b (t, lg) =
          Option.bind (case drop_artificial_variables t1 of
                           (Inl e, t3) \<Rightarrow> Some (Return (leave_with e (t3, ?lg1)))
                         | (Inr _, t3) \<Rightarrow> Some (Continue (t3, ?lg1))) ?G"
        unfolding unf p1(1) using Inr xs
        by (cases "drop_artificial_variables t1"; cases "fst (drop_artificial_variables t1)")
           simp_all
      from drop_artificial_variables_cases [OF p1(2) fr(1) fr(3)] fr(2) lo
      consider e t3 where "drop_artificial_variables t1 = (Inl e, t3)"
          "e = NameError \<or> e = IndexError"
        | t3 where "drop_artificial_variables t1 = (Inr (), t3)" "tableau_inv (Suc n) t3"
        by auto
      then show ?thesis
      proof cases
        case 1
        have "leave_with e (t3, ?lg1) = (Inl e, t3, ?lg1)"
          using 1(2) by (intro leave_with_error) auto
        then have "solve M b (t, lg) = Some (Inl e, t3, ?lg1)"
          unfolding step 1(1) by simp
        then have "solve M b (t, lg) = Some (Inl e, t3, lg @ TwoPhase # evs1 @ [])" by simp
        moreover have "fst (drop_artificial_variables t1) \<noteq> Inr ()" using 1(1) by simp
        ultimately show ?thesis using p1' p1(4,5) Inr True
          by (intro exI[of _ "Inl e"] exI[of _ t3] exI[of _ res1] exI[of _ t1] exI[of _ evs1]
                exI[of _ "[]"]) simp
      next
        case 2
        have complete3: "- 1 \<notin> set (basis t3)" using 2(2) by (simp add: tableau_inv_def)
        have "solve M b (t, lg) = ?G (Continue (t3, ?lg1))" unfolding step 2(1) by simp
        also have "\<dots> = solve M b (t3, ?lg1)"
          by (simp add: solve_complete_unfold [OF complete3])
        finally have cont: "solve M b (t, lg) = solve M b (t3, ?lg1)" .
        from solve_complete [OF 2(2), of M b ?lg1] obtain res t' evs2 where
          p2: "solve M b (t3, ?lg1) = Some (res, t', ?lg1 @ evs2)"
            "phase_log M b evs2" "phase_result M b res t'" by blast
        have "solve M b (t, lg) = Some (res, t', lg @ TwoPhase # evs1 @ evs2)"
          using cont p2(1) by simp
        moreover have "TwoPhase \<notin> set evs2" using p2(2) by (simp add: phase_log_def)
        ultimately show ?thesis using p1' p1(4,5) p2(2,3) Inr True
          by (intro exI[of _ res] exI[of _ t'] exI[of _ res1] exI[of _ t1] exI[of _ evs1]
                exI[of _ evs2]) simp
      qed
    qed
  qed
qed

subsection \<open>Every call of the solver returns\<close>

lemma SimplexSolver_init_valid:
  assumes "SimplexSolver_init obj coeffs constraints = Inr t" "constraints \<noteq> []"
  shows "0 < length constraints" "shape t = (length constraints, length obj)"
    "rect (tab t) (Suc (length constraints)) (Suc (length obj))"
    "length (obj_func t) = length obj"
proof -
  from assms(1) have lc: "length coeffs = length constraints"
    and rows: "\<forall>coeff \<in> set coeffs. length coeff = length obj"
    and t: "t = Tableau_init obj coeffs constraints"
    by (auto simp: SimplexSolver_init_def Let_def split: if_splits)
  show "0 < length constraints" using assms(2) by simp
  show "shape t = (length constraints, length obj)" by (simp add: t Tableau_init_def)
  show "length (obj_func t) = length obj" by (simp add: t Tableau_init_def)
  have "\<forall>r \<in> set (map2 (\<lambda>r b. r @ [b]) coeffs constraints). length r = Suc (length obj)"
    using rows by (auto simp: in_set_zip)
  then show "rect (tab t) (Suc (length constraints)) (Suc (length obj))"
    using lc by (simp add: t Tableau_init_def rect_def)
qed

text \<open>
  Claim C1, as the code has it. For every problem that passes the checks of
  \<^verbatim>\<open>SimplexSolver.__init__\<close> and has at least one constraint, every \<^verbatim>\<open>max_iterations\<close>
  and either rule, \<open>solve\<close> returns (its value is \<open>Some\<close>), and its log and result
  follow the phases of the method. The log of one phase, \<open>phase_log\<close>, has no
  two-phase notice and at most one switch to Bland's rule, none when Bland's rule is on
  from the start, and at most \<^verbatim>\<open>max_iterations\<close> pivots before the switch. The result of
  one phase, \<open>phase_result\<close>, is a \<open>Solution\<close> whose state, the state the tableau is left
  in, is \<open>Optimal\<close>, \<open>Unbounded\<close> or \<open>Infeasible\<close>, with an assignment exactly when it is
  \<open>Optimal\<close>, or it is \<open>UnsolvableError\<close>, under Bland's rule with the caller's budget.

  When the basis of the initial tableau is complete, the call is one phase. When it is
  not, the two-phase notice is logged once, and phase 1, the recursive call on the
  tableau with artificial variables, is one phase under the standard rule: its
  \<open>UnsolvableError\<close>, or its \<open>Solution\<close> when the state is not \<open>Optimal\<close>, is the result of
  the call, and when the state is \<open>Optimal\<close> and \<^verbatim>\<open>drop_artificial_variables\<close> returns,
  the rest of the call is one phase. The statement bounds no pivot after a switch and
  leaves open the result of a call in which \<^verbatim>\<open>drop_artificial_variables\<close> raises.

  The statement follows the control flow of \<open>solve\<close>; of the arithmetic its proof uses
  that a pivot leaves the unit columns of the other rows as they are and makes the
  entering column a unit column. The runs of the witness pivot on 1 and 2 only, within
  the integers and halves.
\<close>

theorem solve_terminates:
  assumes "SimplexSolver_init obj coeffs constraints = Inr t" "constraints \<noteq> []"
  shows "\<exists>res t' evs. solve M b (t, []) = Some (res, t', evs) \<and>
     (- 1 \<notin> set (basis t) \<longrightarrow> phase_log M b evs \<and> phase_result M b res t') \<and>
     (- 1 \<in> set (basis t) \<longrightarrow>
        (\<exists>res1 t1 evs1 evs2.
           solve M False (add_artificial_variables t, [TwoPhase]) =
             Some (res1, t1, TwoPhase # evs1) \<and>
           evs = TwoPhase # evs1 @ evs2 \<and>
           phase_log M False evs1 \<and> phase_result M False res1 t1 \<and> TwoPhase \<notin> set evs2 \<and>
           (case res1 of
              Inl e \<Rightarrow> res = Inl e \<and> evs2 = []
            | Inr sol1 \<Rightarrow>
                (sol_state sol1 \<noteq> Optimal \<longrightarrow> res = Inr sol1 \<and> evs2 = []) \<and>
                (sol_state sol1 = Optimal \<and> fst (drop_artificial_variables t1) = Inr () \<longrightarrow>
                   phase_log M b evs2 \<and> phase_result M b res t'))))"
proof -
  note v = SimplexSolver_init_valid [OF assms]
  show ?thesis
  proof (cases "- 1 \<in> set (basis t)")
    case True
    from solve_incomplete [OF v(1,2,3,4) True, of M "[]" b] obtain res t' res1 t1 evs1 evs2 where
      r: "solve M False (add_artificial_variables t, [] @ [TwoPhase]) =
             Some (res1, t1, [] @ TwoPhase # evs1)"
        "solve M b (t, []) = Some (res, t', [] @ TwoPhase # evs1 @ evs2)"
        "phase_log M False evs1" "phase_result M False res1 t1" "TwoPhase \<notin> set evs2"
        "case res1 of
              Inl e \<Rightarrow> res = Inl e \<and> evs2 = []
            | Inr sol1 \<Rightarrow>
                (sol_state sol1 \<noteq> Optimal \<longrightarrow> res = Inr sol1 \<and> evs2 = []) \<and>
                (sol_state sol1 = Optimal \<and> fst (drop_artificial_variables t1) = Inr () \<longrightarrow>
                   phase_log M b evs2 \<and> phase_result M b res t')"
      by blast
    have "\<exists>res1 t1 evs1' evs2'.
           solve M False (add_artificial_variables t, [TwoPhase]) =
             Some (res1, t1, TwoPhase # evs1') \<and>
           TwoPhase # evs1 @ evs2 = TwoPhase # evs1' @ evs2' \<and>
           phase_log M False evs1' \<and> phase_result M False res1 t1 \<and> TwoPhase \<notin> set evs2' \<and>
           (case res1 of
              Inl e \<Rightarrow> res = Inl e \<and> evs2' = []
            | Inr sol1 \<Rightarrow>
                (sol_state sol1 \<noteq> Optimal \<longrightarrow> res = Inr sol1 \<and> evs2' = []) \<and>
                (sol_state sol1 = Optimal \<and> fst (drop_artificial_variables t1) = Inr () \<longrightarrow>
                   phase_log M b evs2' \<and> phase_result M b res t'))"
      using r(1,3,4,5,6)
      by (intro exI[of _ res1] exI[of _ t1] exI[of _ evs1] exI[of _ evs2]) simp
    then show ?thesis using r(2) True
      by (intro exI[of _ res] exI[of _ t'] exI[of _ "TwoPhase # evs1 @ evs2"]) simp
  next
    case False
    have inv: "tableau_inv (Suc (length obj)) t"
      using v False by (simp add: tableau_inv_def)
    from solve_complete [OF inv, of M b "[]"] obtain res t' evs where
      r: "solve M b (t, []) = Some (res, t', [] @ evs)" "phase_log M b evs"
        "phase_result M b res t'" by blast
    then show ?thesis using False
      by (intro exI[of _ res] exI[of _ t'] exI[of _ evs]) simp
  qed
qed

theorem solve_terminates_witness:
  "map_option fst (solve 100 False (test_case_1, [])) =
     Some (Inr \<lparr>sol_state = Optimal, sol_obj_value = Value 38,
                 sol_solution = Some [4, 10, 20]\<rparr>) \<and>
   (\<exists>res t' evs. solve 100 False (test_case_1, []) = Some (res, t', evs) \<and>
       phase_log 100 False evs \<and> phase_result 100 False res t') \<and>
   map_option fst (solve 100 False (two_phase_problem, [])) =
     Some (Inr \<lparr>sol_state = Optimal, sol_obj_value = Value 4,
                 sol_solution = Some [0, 2, 1]\<rparr>) \<and>
   (\<exists>res t' evs1 evs2.
       solve 100 False (two_phase_problem, []) = Some (res, t', TwoPhase # evs1 @ evs2) \<and>
       phase_log 100 False evs1 \<and> phase_log 100 False evs2 \<and>
       phase_result 100 False res t')"
proof -
  have h1: "SimplexSolver_init [2, 3, 0, 0, 0]
      [[1, - 2, 1, 0, 0], [2, 1, 0, 1, 0], [0, 1, 0, 0, 1]] [4, 18, 10] = Inr test_case_1"
    by (simp add: SimplexSolver_init_def test_case_1_def)
  have h2: "SimplexSolver_init [1, 2, 0] [[1, 1, 0], [1, 0, 1]] [2, 1] = Inr two_phase_problem"
    by (simp add: SimplexSolver_init_def two_phase_problem_def)
  have c1: "- 1 \<notin> set (basis test_case_1)" by code_simp
  have c2: "- 1 \<in> set (basis two_phase_problem)" by code_simp
  have a: "map_option fst (solve 100 False (test_case_1, [])) =
     Some (Inr \<lparr>sol_state = Optimal, sol_obj_value = Value 38,
                 sol_solution = Some [4, 10, 20]\<rparr>)" by code_simp
  from solve_terminates [OF h1, of 100 False] c1
  have b: "\<exists>res t' evs. solve 100 False (test_case_1, []) = Some (res, t', evs) \<and>
       phase_log 100 False evs \<and> phase_result 100 False res t'" by auto
  have c: "map_option fst (solve 100 False (two_phase_problem, [])) =
     Some (Inr \<lparr>sol_state = Optimal, sol_obj_value = Value 4,
                 sol_solution = Some [0, 2, 1]\<rparr>)" by code_simp
  have p1: "solve 100 False (add_artificial_variables two_phase_problem, [TwoPhase]) =
     Some (Inr \<lparr>sol_state = Optimal, sol_obj_value = Value 0, sol_solution = Some [1, 1]\<rparr>,
           two_phase_end, [TwoPhase, Pivoted 1 1 0, Pivoted 2 0 1])" by code_simp
  have dr: "fst (drop_artificial_variables two_phase_end) = Inr ()" by code_simp
  from solve_terminates [OF h2, of 100 False] c2 obtain res t' evs res1 t1 evs1 evs2 where
    r: "solve 100 False (two_phase_problem, []) = Some (res, t', evs)"
       "solve 100 False (add_artificial_variables two_phase_problem, [TwoPhase]) =
          Some (res1, t1, TwoPhase # evs1)"
       "evs = TwoPhase # evs1 @ evs2" "phase_log 100 False evs1"
       "case res1 of
              Inl e \<Rightarrow> res = Inl e \<and> evs2 = []
            | Inr sol1 \<Rightarrow>
                (sol_state sol1 \<noteq> Optimal \<longrightarrow> res = Inr sol1 \<and> evs2 = []) \<and>
                (sol_state sol1 = Optimal \<and> fst (drop_artificial_variables t1) = Inr () \<longrightarrow>
                   phase_log 100 False evs2 \<and> phase_result 100 False res t')"
    by auto
  have res1: "res1 = Inr \<lparr>sol_state = Optimal, sol_obj_value = Value 0,
                           sol_solution = Some [1, 1]\<rparr>" and t1: "t1 = two_phase_end"
    using r(2) p1 by simp_all
  have "phase_log 100 False evs2 \<and> phase_result 100 False res t'"
    using r(5) dr unfolding res1 t1 by simp
  then have d: "\<exists>res t' evs1 evs2.
       solve 100 False (two_phase_problem, []) = Some (res, t', TwoPhase # evs1 @ evs2) \<and>
       phase_log 100 False evs1 \<and> phase_log 100 False evs2 \<and>
       phase_result 100 False res t'"
    using r(1,3,4) by blast
  from a b c d show ?thesis by blast
qed

text \<open>
  The claim as stated fails in each of its parts, at problems whose pivots stay within
  the integers. The result need not be one of the three states: with Bland's rule on
  and a budget of one pivot, case 1 of the repository's tests ends in
  \<open>UnsolvableError 1\<close>. There can be two switches to Bland's rule in one call, one in each
  phase: \<open>two_phase_problem\<close> with a budget of one pivot. The pivots of the first attempt
  and the retry can exceed twice the budget: the Klee-Minty cube in two variables with
  a budget of one pivot takes three, the retry running with the default budget. A call
  can end in the NameError of \<^verbatim>\<open>drop_artificial_variables\<close>: the system without
  solution. Without a constraint \<^verbatim>\<open>pivot\<close> asks for the position of the minimum of
  an empty array of ratios, a ValueError.
\<close>

theorem solve_claim_counterexample:
  "SimplexSolver_init [2, 3, 0, 0, 0]
      [[1, - 2, 1, 0, 0], [2, 1, 0, 1, 0], [0, 1, 0, 0, 1]] [4, 18, 10] = Inr test_case_1 \<and>
   map_option fst (solve 1 True (test_case_1, [])) = Some (Inl (UnsolvableError 1)) \<and>
   SimplexSolver_init [1, 2, 0] [[1, 1, 0], [1, 0, 1]] [2, 1] = Inr two_phase_problem \<and>
   map_option (snd \<circ> snd) (solve 1 False (two_phase_problem, [])) =
     Some [TwoPhase, Pivoted 1 1 0, Cycling, Pivoted 1 0 1, Pivoted 1 1 2, Cycling] \<and>
   SimplexSolver_init [10, 1, 0, 0] [[1, 0, 1, 0], [20, 1, 0, 1]] [1, 100] = Inr klee_minty_2 \<and>
   map_option (snd \<circ> snd) (solve 1 False (klee_minty_2, [])) =
     Some [Pivoted 1 0 0, Cycling, Pivoted 1 1 1, Pivoted 2 0 2] \<and>
   SimplexSolver_init [1, 1] [[1, 1], [1, 1]] [1, 2] = Inr infeasible_system \<and>
   map_option fst (solve 100 False (infeasible_system, [])) = Some (Inl NameError) \<and>
   SimplexSolver_init [1] [] [] = Inr no_constraint_problem \<and>
   map_option fst (solve 100 False (no_constraint_problem, [])) = Some (Inl ValueError)"
  by code_simp

section \<open>Where the code departs from its description\<close>

text \<open>
  Claim C8. The derived basis should come from the columns left of the right-hand side.
  The loop of \<^verbatim>\<open>basis\<close> runs over all columns of \<^verbatim>\<open>self.tab.T\<close>, the right-hand side
  included, and the last match stays. In the cycling problem of the repository's tests
  the right-hand side 0, 0, 1 under the objective value 0 is itself the unit vector of
  row 3: the basis derived for that row is 7, the index of the right-hand side column,
  although column 6, a variable, is that unit vector too and 7 is no variable. In
  \<open>rhs_unit_problem\<close>, of two variables, the basis derived is 2, and \<open>solve\<close> returns an
  assignment of three entries with the value 1 at index 2 and 0 for both variables,
  which does not satisfy the constraint.
\<close>

theorem basis_takes_rhs_column:
  "basis test_case_3 = [4, 5, 7] \<and> length (columns (tab test_case_3)) = 8 \<and>
   columns (tab test_case_3) ! 6 = unit_vec 4 3 \<and>
   columns (tab test_case_3) ! 7 = obj_value test_case_3 # solution test_case_3 \<and>
   SimplexSolver_init [- 1, 0] [[1, 1]] [1] = Inr rhs_unit_problem \<and>
   basis rhs_unit_problem = [2] \<and>
   map_option fst (solve 100 False (rhs_unit_problem, [])) =
     Some (Inr \<lparr>sol_state = Optimal, sol_obj_value = Value 0,
                 sol_solution = Some [0, 0, 1]\<rparr>)"
  by code_simp

text \<open>
  Claim C3. When phase 1 has ended at an optimum and an artificial variable is still
  basic, \<^verbatim>\<open>drop_artificial_variables\<close> should read the right-hand side of that
  variable's row and raise \<open>InfeasibleProblem\<close> when it is positive. Line 271 reads
  \<^verbatim>\<open>self.tab[v][-1]\<close> with no \<^verbatim>\<open>v\<close> in scope: the method raises NameError instead, and
  so does \<open>solve\<close>. The system without solution ends phase 1 at \<open>phase1_end\<close>, where
  the artificial variable 3 is basic in the second row with right-hand side 1.
\<close>

theorem drop_artificial_variables_name_error:
  "map_option (fst \<circ> snd)
     (solve 100 False (add_artificial_variables infeasible_system, [TwoPhase])) =
     Some phase1_end \<and>
   basis phase1_end = [1, 3] \<and> solution phase1_end = [1, 1] \<and>
   drop_artificial_variables phase1_end = (Inl NameError, phase1_end) \<and>
   map_option fst (solve 100 False (infeasible_system, [])) = Some (Inl NameError)"
  by code_simp

text \<open>
  Claim C2. The retry under Bland's rule should have the budget \<^verbatim>\<open>max_iterations\<close> of
  the call and fail with \<open>UnsolvableError\<close> once it is used up. The recursive call is
  \<^verbatim>\<open>self.solve(use_blands_rule=True)\<close>, so the retry runs with the default budget 100,
  whatever the caller passed (the recursive call of phase 1 does pass it on). With
  \<^verbatim>\<open>max_iterations=1\<close> on the Klee-Minty cube the standard rule performs its one pivot,
  and the retry performs four more and returns the optimum, where a budget of 1 would
  have ended it after one pivot.
\<close>

theorem solve_retry_ignores_budget:
  "map_option (\<lambda>r. (fst r, snd (snd r))) (solve 1 False (test_case_2, [])) =
     Some (Inr \<lparr>sol_state = Optimal, sol_obj_value = Value 10000,
                 sol_solution = Some [0, 0, 10000, 1, 100]\<rparr>,
           [Pivoted 1 0 0, Cycling, Pivoted 1 1 1, Pivoted 2 2 2, Pivoted 3 1 4,
            Pivoted 4 0 3])"
  by code_simp

end
